theory Spec2Isabelle
  imports Main "HOL-Library.AList"
begin

section \<open>The size-limited MCP bridge: constants, text helpers\<close>

text \<open>
  The model follows the size-limited bridge server (the third document of
  \<^verbatim>\<open>mcp-dashboard/src/App.css\<close>, lines 1083-1521): one WebSocket connection, the
  child processes it spawns, the map of pending requests and the timers.
  Text is a list of characters; \<open>length\<close> stands for JavaScript's \<open>.length\<close>.
  \<open>console.log\<close> output and values that only feed it (\<open>startTime\<close>, the 10 s
  initialisation timer) are left out.
\<close>

definition REQUEST_TIMEOUT :: nat where
  "REQUEST_TIMEOUT = 10000"

definition MAX_RESPONSE_SIZE :: nat where
  "MAX_RESPONSE_SIZE = 50000"

definition newline :: char where
  "newline = CHR 0x0A"

text \<open>The ASCII white space: what \<open>trim\<close> removes and \<open>\s\<close> matches among 7-bit characters.\<close>

definition is_space :: "char \<Rightarrow> bool" where
  "is_space c = (c \<in> set [CHR 0x09, CHR 0x0A, CHR 0x0B, CHR 0x0C, CHR 0x0D, CHR 0x20])"

text \<open>\<open>String.prototype.trim\<close>, and the test \<open>line.trim()\<close> used as a condition.\<close>

definition js_trim :: "string \<Rightarrow> string" where
  "js_trim s = rev (dropWhile is_space (rev (dropWhile is_space s)))"

definition trim_truthy :: "string \<Rightarrow> bool" where
  "trim_truthy s = (js_trim s \<noteq> [])"

text \<open>\<open>str.split('\n')\<close>: never empty, the last element is the text after the last newline.\<close>

fun split_nl :: "string \<Rightarrow> string list" where
  "split_nl [] = [[]]"
| "split_nl (c # cs) =
     (if c = newline then [] # split_nl cs
      else (case split_nl cs of [] \<Rightarrow> [[c]] | l # ls \<Rightarrow> (c # l) # ls))"

text \<open>\<open>str.split(/\s+/)\<close> on a trimmed string.\<close>

function split_ws :: "string \<Rightarrow> string list" where
  "split_ws [] = [[]]"
| "split_ws (c # cs) =
     (if is_space c then [] # split_ws (dropWhile is_space cs)
      else (case split_ws cs of [] \<Rightarrow> [[c]] | w # ws \<Rightarrow> (c # w) # ws))"
  by pat_completeness auto
termination
  by (relation "measure length") (auto simp: less_Suc_eq_le length_dropWhile_le)

text \<open>Decimal rendering of a number inside a template string.\<close>

definition digit_char :: "nat \<Rightarrow> char" where
  "digit_char d = ''0123456789'' ! d"

function show_nat :: "nat \<Rightarrow> string" where
  "show_nat n = (if n < 10 then [digit_char n] else show_nat (n div 10) @ [digit_char (n mod 10)])"
  by pat_completeness auto
termination
  by (relation "measure id") auto

declare show_nat.simps [simp del]

text \<open>\<open>Math.round(n / 1024)\<close> for a non-negative integer \<open>n\<close> (halves round up).\<close>

definition round_kb :: "nat \<Rightarrow> nat" where
  "round_kb n = (2 * n + 1024) div 2048"

text \<open>An exit code in a template string: \<open>null\<close> when the child was ended by a signal.\<close>

definition show_code :: "nat option \<Rightarrow> string" where
  "show_code code = (case code of None \<Rightarrow> ''null'' | Some n \<Rightarrow> show_nat n)"

section \<open>Data model\<close>

text \<open>
  A JSON-RPC id: absent, \<open>null\<close>, a number or a string (the types JSON-RPC 2.0
  allows; numbers are whole). Truthiness is JavaScript's: the bridge tests ids with
  \<open>msg.id &&\<close> and \<open>parsed.id &&\<close>. Equality is the Map's key equality.
\<close>

datatype json_id = IdAbsent | IdNull | IdNum int | IdStr string

fun truthy :: "json_id \<Rightarrow> bool" where
  "truthy IdAbsent = False"
| "truthy IdNull = False"
| "truthy (IdNum n) = (n \<noteq> 0)"
| "truthy (IdStr s) = (s \<noteq> [])"

text \<open>What the bridge reads of a line it parsed from the child's stdout.\<close>

record parsed =
  p_id :: json_id
  p_result :: bool

text \<open>
  A client message after \<open>JSON.parse\<close>. \<open>rpc_text\<close> is \<open>JSON.stringify(msg)\<close>;
  \<open>rpc_method\<close> is \<open>None\<close> when the field is absent.
\<close>

record rpc_msg =
  rpc_id :: json_id
  rpc_method :: "string option"
  rpc_text :: string

record connect_msg =
  c_command :: "string option"
  c_args :: "string list option"
  c_workingDir :: "string option"

text \<open>
  \<open>Connect c dir_exists spawn_ok\<close> carries, with the message, what the environment
  answers while it is handled: \<open>fs.existsSync(workingDir)\<close> and whether the operating
  system started the process. \<open>Invalid\<close> is a payload on which \<open>JSON.parse\<close> or the
  access \<open>msg.type\<close> throws.
\<close>

datatype client_msg = Invalid | Connect connect_msg bool bool | Rpc rpc_msg

datatype signal = SIGTERM | SIGKILL

text \<open>What \<open>ws.send\<close> is called with.\<close>

datatype ws_msg =
    Forwarded string
  | RpcError json_id int string
  | ErrorEvent string
  | ProcessExitEvent "nat option" "string option" string string string
  | ProcessErrorEvent string

record request_info =
  ri_method :: string
  ri_timeout :: nat

text \<open>A scheduled request timeout: its handle, the \<open>msg.id\<close> its callback closes over, its delay in ms.\<close>

record timer =
  t_handle :: nat
  t_id :: json_id
  t_delay :: nat

text \<open>
  A child process with the variables the connect branch declares for it.
  \<open>alive\<close>: the operating-system process runs (it ends with the exit event).
  \<open>killed\<close> is Node's \<open>subprocess.killed\<close>, which the Node documentation describes
  so: it "indicates whether the child process successfully received a signal from
  \<open>subprocess.kill()\<close>" and "does not indicate that the child process has been
  terminated". \<open>signals\<close> are the signals delivered to the child, \<open>stdin\<close> the texts
  passed to \<open>stdin.write\<close>, both in order.
\<close>

record proc =
  command :: string
  args :: "string list"
  alive :: bool
  killed :: bool
  signals :: "signal list"
  stdin :: "string list"
  isInitialized :: bool
  stderrBuffer :: string
  stdoutBuffer :: string
  currentLineBuffer :: string
  totalResponseSize :: nat

text \<open>
  The session of one connection. \<open>cur\<close> is the closure variable \<open>mcpProcess\<close>,
  \<open>reg\<close> the entry of \<open>activeConnections\<close> (\<open>None\<close>: deleted; \<open>Some r\<close>: present with
  \<open>mcpProcess = r\<close>), \<open>pending\<close> the Map \<open>pendingRequests\<close> in insertion order,
  \<open>timers\<close> the request timeouts that are scheduled, \<open>kill_timers\<close> the scheduled
  force-kill callbacks with the process each one's \<open>connection\<close> holds, \<open>sent\<close> the
  calls of \<open>ws.send\<close> in order.
\<close>

record state =
  ws_open :: bool
  shutting_down :: bool
  cur :: "nat option"
  reg :: "nat option option"
  pending :: "(json_id \<times> request_info) list"
  timers :: "timer list"
  next_timer :: nat
  kill_timers :: "nat list"
  procs :: "proc list"
  sent :: "ws_msg list"

definition init :: state where
  "init = \<lparr>ws_open = True, shutting_down = False, cur = None, reg = Some None,
           pending = [], timers = [], next_timer = 0, kill_timers = [], procs = [], sent = []\<rparr>"

section \<open>Primitive effects\<close>

definition ws_send :: "ws_msg \<Rightarrow> state \<Rightarrow> state" where
  "ws_send m s = s\<lparr>sent := sent s @ [m]\<rparr>"

definition clearTimeout :: "nat \<Rightarrow> state \<Rightarrow> state" where
  "clearTimeout h s = s\<lparr>timers := filter (\<lambda>t. t_handle t \<noteq> h) (timers s)\<rparr>"

definition pending_delete :: "json_id \<Rightarrow> state \<Rightarrow> state" where
  "pending_delete i s = s\<lparr>pending := AList.delete i (pending s)\<rparr>"

definition upd_proc :: "nat \<Rightarrow> (proc \<Rightarrow> proc) \<Rightarrow> state \<Rightarrow> state" where
  "upd_proc p f s = s\<lparr>procs := (procs s)[p := f (procs s ! p)]\<rparr>"

text \<open>
  \<open>subprocess.kill(sig)\<close> as Node documents it: while the child runs the signal is
  delivered and \<open>killed\<close> becomes true; on a child that has exited nothing happens.
\<close>

definition kill :: "nat \<Rightarrow> signal \<Rightarrow> state \<Rightarrow> state" where
  "kill p sg s =
     (if alive (procs s ! p)
      then upd_proc p (\<lambda>q. q\<lparr>signals := signals q @ [sg], killed := True\<rparr>) s
      else s)"

section \<open>Message texts\<close>

definition breach_msg :: "nat \<Rightarrow> string" where
  "breach_msg tot =
     ''Response too large ('' @ show_nat (round_kb tot) @ ''KB). Server should implement size limiting.''"

definition oversize_msg :: "string \<Rightarrow> string" where
  "oversize_msg line =
     ''Response too large ('' @ show_nat (round_kb (length line)) @ ''KB). Content truncated for performance.''"

definition exit_msg :: "nat option \<Rightarrow> string" where
  "exit_msg code = ''MCP process exited unexpectedly (code: '' @ show_code code @ '')''"

definition request_too_large_msg :: "string \<Rightarrow> string" where
  "request_too_large_msg messageStr =
     ''Request too large ('' @ show_nat (round_kb (length messageStr)) @ ''KB). Please reduce request size.''"

definition timeout_msg :: string where
  "timeout_msg = ''Request timeout after 15 seconds. Server should implement faster response handling.''"

definition unavailable_msg :: string where
  "unavailable_msg = ''MCP process not available''"

section \<open>The Framer\<close>

text \<open>
  Lines 1224-1225: \<open>lines = currentLineBuffer.split('\n')\<close>,
  \<open>currentLineBuffer = lines.pop() || ''\<close>. The pair is the complete lines and the
  new carry-over buffer. \<open>framer_feed\<close> is line 1194 followed by these two.
\<close>

definition framer_split :: "string \<Rightarrow> string list \<times> string" where
  "framer_split buf = (butlast (split_nl buf), last (split_nl buf))"

definition framer_feed :: "string \<Rightarrow> string \<Rightarrow> string list \<times> string" where
  "framer_feed carry chunk = framer_split (carry @ chunk)"

section \<open>Handlers of the child's streams\<close>

text \<open>The \<open>forEach\<close> of the cumulative size breach (lines 1202-1215), over the entries in order.\<close>

fun breach_each :: "nat \<Rightarrow> (json_id \<times> request_info) list \<Rightarrow> state \<Rightarrow> state" where
  "breach_each tot [] s = s"
| "breach_each tot ((i, requestInfo) # rest) s =
     breach_each tot rest
       (pending_delete i
         (clearTimeout (ri_timeout requestInfo)
           (if ws_open s then ws_send (RpcError i (- 32603) (breach_msg tot)) s else s)))"

text \<open>
  The body of \<open>lines.filter(...).forEach\<close> (lines 1227-1281) for one line of process
  \<open>p\<close>. \<open>json_parse\<close> stands for \<open>JSON.parse\<close> followed by the reads of \<open>parsed.id\<close> and
  \<open>parsed.result\<close>; \<open>None\<close> is a throw, which the \<open>catch\<close> only logs.
\<close>

definition lookup_pending :: "state \<Rightarrow> json_id \<Rightarrow> request_info option" where
  "lookup_pending s i = (if truthy i then map_of (pending s) i else None)"

definition process_line :: "(string \<Rightarrow> parsed option) \<Rightarrow> nat \<Rightarrow> string \<Rightarrow> state \<Rightarrow> state" where
  "process_line json_parse p line s =
     (case json_parse line of
        None \<Rightarrow> s
      | Some parsed \<Rightarrow>
          if length line > MAX_RESPONSE_SIZE div 2 then
            (case lookup_pending s (p_id parsed) of
               Some requestInfo \<Rightarrow>
                 let s1 = pending_delete (p_id parsed) (clearTimeout (ri_timeout requestInfo) s)
                 in if ws_open s1
                    then ws_send (RpcError (p_id parsed) (- 32603) (oversize_msg line)) s1
                    else s1
             | None \<Rightarrow> s)
          else
            let s1 = (case lookup_pending s (p_id parsed) of
                        Some requestInfo \<Rightarrow>
                          pending_delete (p_id parsed) (clearTimeout (ri_timeout requestInfo) s)
                      | None \<Rightarrow> s);
                s2 = ws_send (Forwarded line) s1
            in if \<not> isInitialized (procs s2 ! p) \<and> p_result parsed
               then upd_proc p (\<lambda>q. q\<lparr>isInitialized := True\<rparr>) s2
               else s2)"

text \<open>\<open>mcpProcess.stdout.on('data', ...)\<close> of process \<open>p\<close> (lines 1189-1282).\<close>

definition stdout_data :: "(string \<Rightarrow> parsed option) \<Rightarrow> nat \<Rightarrow> string \<Rightarrow> state \<Rightarrow> state" where
  "stdout_data json_parse p dataStr s =
     (if shutting_down s \<or> \<not> ws_open s then s
      else
        let s1 = upd_proc p (\<lambda>q. q\<lparr>stdoutBuffer := stdoutBuffer q @ dataStr,
                                   currentLineBuffer := currentLineBuffer q @ dataStr,
                                   totalResponseSize := totalResponseSize q + length dataStr\<rparr>) s;
            tot = totalResponseSize (procs s1 ! p)
        in if tot > MAX_RESPONSE_SIZE then
             upd_proc p (\<lambda>q. q\<lparr>currentLineBuffer := [], totalResponseSize := 0\<rparr>)
               (breach_each tot (pending s1) s1)
           else
             let (lines, carry) = framer_split (currentLineBuffer (procs s1 ! p));
                 s2 = upd_proc p (\<lambda>q. q\<lparr>currentLineBuffer := carry\<rparr>) s1
             in fold (process_line json_parse p) (filter trim_truthy lines) s2)"

text \<open>\<open>mcpProcess.stderr.on('data', ...)\<close> (lines 1284-1288): the text is buffered, nothing is sent.\<close>

definition stderr_data :: "nat \<Rightarrow> string \<Rightarrow> state \<Rightarrow> state" where
  "stderr_data p dataStr s =
     upd_proc p (\<lambda>q. q\<lparr>stderrBuffer := stderrBuffer q @ js_trim dataStr @ [newline]\<rparr>) s"

text \<open>The \<open>forEach\<close> of the exit handler (lines 1294-1309).\<close>

fun exit_each :: "nat option \<Rightarrow> (json_id \<times> request_info) list \<Rightarrow> state \<Rightarrow> state" where
  "exit_each code [] s = s"
| "exit_each code ((i, requestInfo) # rest) s =
     exit_each code rest
       (let s1 = clearTimeout (ri_timeout requestInfo) s
        in if ws_open s1 then ws_send (RpcError i (- 32603) (exit_msg code)) s1 else s1)"

definition process_exit_text :: "nat option \<Rightarrow> string" where
  "process_exit_text code =
     (if code = Some 0 then ''Process exited successfully but may not have initialized properly''
      else ''Process exited with error code '' @ show_code code)"

text \<open>\<open>mcpProcess.on('exit', ...)\<close> of process \<open>p\<close> (lines 1290-1336); the process is gone when it runs.\<close>

definition proc_exit :: "nat \<Rightarrow> nat option \<Rightarrow> string option \<Rightarrow> state \<Rightarrow> state" where
  "proc_exit p code sg s =
     (let s1 = upd_proc p (\<lambda>q. q\<lparr>alive := False\<rparr>) s;
          s2 = (exit_each code (pending s1) s1)\<lparr>pending := []\<rparr>;
          q = procs s2 ! p;
          s3 = (if (code \<noteq> Some 0 \<or> (code = Some 0 \<and> \<not> isInitialized q)) \<and> ws_open s2
                then ws_send (ProcessExitEvent code sg (stdoutBuffer q) (stderrBuffer q)
                                (process_exit_text code)) s2
                else s2)
      in case reg s3 of None \<Rightarrow> s3 | Some r \<Rightarrow> s3\<lparr>reg := Some None\<rparr>)"

text \<open>\<open>mcpProcess.on('error', ...)\<close> (lines 1338-1352).\<close>

definition proc_error :: "string \<Rightarrow> state \<Rightarrow> state" where
  "proc_error message s = (if ws_open s then ws_send (ProcessErrorEvent message) s else s)"

section \<open>Handlers of the client connection\<close>

text \<open>
  Lines 1135-1150: \<open>None\<close> is the throw of \<open>Invalid command format\<close>; the command is
  \<open>None\<close> when \<open>msg.command\<close> is taken as it is and is not a string.
\<close>

definition parse_command :: "connect_msg \<Rightarrow> (string option \<times> string list) option" where
  "parse_command c =
     (case c_args c of
        Some (a # as) \<Rightarrow> Some (c_command c, a # as)
      | _ \<Rightarrow>
        (case c_command c of
           Some cmd \<Rightarrow>
             let parts = split_ws (js_trim cmd)
             in Some (Some (hd parts), tl parts @ (case c_args c of Some as \<Rightarrow> as | None \<Rightarrow> []))
         | None \<Rightarrow> None))"

definition new_proc :: "string \<Rightarrow> string list \<Rightarrow> bool \<Rightarrow> proc" where
  "new_proc cmd as ok =
     \<lparr>command = cmd, args = as, alive = ok, killed = False, signals = [], stdin = [],
      isInitialized = False, stderrBuffer = [], stdoutBuffer = [], currentLineBuffer = [],
      totalResponseSize = 0\<rparr>"

text \<open>
  The connect branch (lines 1133-1177). \<open>spawn\<close> throws on a command that is not a
  non-empty string, and the handler's \<open>catch\<close> only logs; otherwise it returns a new
  process object, which becomes \<open>mcpProcess\<close> and the registry entry's process.
\<close>

definition connect :: "connect_msg \<Rightarrow> bool \<Rightarrow> bool \<Rightarrow> state \<Rightarrow> state" where
  "connect c dir_exists spawn_ok s =
     (case parse_command c of
        None \<Rightarrow> s
      | Some (cmd, as) \<Rightarrow>
          if \<not> dir_exists then
            ws_send (ErrorEvent (''Working directory does not exist: '' @
                                  (case c_workingDir c of Some d \<Rightarrow> d | None \<Rightarrow> []))) s
          else
            (case cmd of
               None \<Rightarrow> s
             | Some file \<Rightarrow>
                 if file = [] then s
                 else s\<lparr>procs := procs s @ [new_proc file as spawn_ok],
                        cur := Some (length (procs s)),
                        reg := Some (Some (length (procs s)))\<rparr>))"

text \<open>Lines 1387-1410: \<open>setTimeout(..., REQUEST_TIMEOUT)\<close> and \<open>pendingRequests.set\<close>.\<close>

definition register :: "rpc_msg \<Rightarrow> string \<Rightarrow> state \<Rightarrow> state" where
  "register r m s =
     s\<lparr>timers := timers s @ [\<lparr>t_handle = next_timer s, t_id = rpc_id r, t_delay = REQUEST_TIMEOUT\<rparr>],
       next_timer := Suc (next_timer s),
       pending := AList.update (rpc_id r) \<lparr>ri_method = m, ri_timeout = next_timer s\<rparr> (pending s)\<rparr>"

definition method_truthy :: "rpc_msg \<Rightarrow> bool" where
  "method_truthy r = (case rpc_method r of None \<Rightarrow> False | Some m \<Rightarrow> m \<noteq> [])"

text \<open>The condition of line 1365 on the closure variable \<open>mcpProcess\<close>.\<close>

definition available :: "state \<Rightarrow> nat option" where
  "available s =
     (case cur s of
        None \<Rightarrow> None
      | Some p \<Rightarrow> if \<not> killed (procs s ! p) \<and> \<not> shutting_down s then Some p else None)"

text \<open>The else branch of the message handler (lines 1363-1431).\<close>

definition forward :: "rpc_msg \<Rightarrow> state \<Rightarrow> state" where
  "forward r s =
     (case available s of
        Some p \<Rightarrow>
          let messageStr = rpc_text r @ [newline]
          in if length messageStr > MAX_RESPONSE_SIZE div 4 then
               (if truthy (rpc_id r) \<and> ws_open s
                then ws_send (RpcError (rpc_id r) (- 32603) (request_too_large_msg messageStr)) s
                else s)
             else
               let s1 = upd_proc p (\<lambda>q. q\<lparr>stdin := stdin q @ [messageStr]\<rparr>) s
               in if truthy (rpc_id r) \<and> method_truthy r
                  then register r (the (rpc_method r)) s1
                  else s1
      | None \<Rightarrow>
          if truthy (rpc_id r) \<and> ws_open s
          then ws_send (RpcError (rpc_id r) (- 32603) unavailable_msg) s
          else s)"

text \<open>\<open>ws.on('message', ...)\<close> (lines 1127-1437).\<close>

definition ws_message :: "client_msg \<Rightarrow> state \<Rightarrow> state" where
  "ws_message m s =
     (if shutting_down s then s
      else (case m of
              Invalid \<Rightarrow> s
            | Connect c dir_exists spawn_ok \<Rightarrow> connect c dir_exists spawn_ok s
            | Rpc r \<Rightarrow> forward r s))"

text \<open>The callback of a request's timer (lines 1392-1407), run for the scheduled timer \<open>t\<close>.\<close>

definition request_timeout :: "timer \<Rightarrow> state \<Rightarrow> state" where
  "request_timeout t s =
     (let s1 = pending_delete (t_id t) (s\<lparr>timers := filter (\<lambda>u. t_handle u \<noteq> t_handle t) (timers s)\<rparr>)
      in if ws_open s1 then ws_send (RpcError (t_id t) (- 32603) timeout_msg) s1 else s1)"

text \<open>The \<open>forEach\<close> of the close and shutdown handlers: timers are cleared, nothing is sent.\<close>

fun clear_each :: "(json_id \<times> request_info) list \<Rightarrow> state \<Rightarrow> state" where
  "clear_each [] s = s"
| "clear_each ((i, requestInfo) # rest) s = clear_each rest (clearTimeout (ri_timeout requestInfo) s)"

text \<open>
  \<open>ws.on('close', ...)\<close> (lines 1439-1466). The connection is closed when it runs.
  The force-kill callback keeps the registry entry \<open>connection\<close>; the entry leaves
  the registry at the end of this handler, so nothing changes its process afterwards.
\<close>

definition ws_close :: "state \<Rightarrow> state" where
  "ws_close s =
     (let s0 = s\<lparr>ws_open := False\<rparr>
      in case reg s0 of
           None \<Rightarrow> s0
         | Some r \<Rightarrow>
             let s1 = (clear_each (pending s0) s0)\<lparr>pending := []\<rparr>;
                 s2 = (case r of
                         None \<Rightarrow> s1
                       | Some p \<Rightarrow>
                           if \<not> killed (procs s1 ! p)
                           then (kill p SIGTERM s1)\<lparr>kill_timers := kill_timers s1 @ [p]\<rparr>
                           else s1)
             in s2\<lparr>reg := None\<rparr>)"

text \<open>The force-kill callback (lines 1457-1461) for the process \<open>p\<close> its entry holds.\<close>

definition kill_timeout :: "nat \<Rightarrow> state \<Rightarrow> state" where
  "kill_timeout p s =
     (let s1 = s\<lparr>kill_timers := remove1 p (kill_timers s)\<rparr>
      in if \<not> killed (procs s1 ! p) then kill p SIGKILL s1 else s1)"

text \<open>
  \<open>shutdown()\<close> (lines 1474-1514) as far as it touches this session: a session that
  is in the registry has its connection closed (\<open>ws.close()\<close> ends the state OPEN),
  its timers cleared and its registered process sent SIGKILL. A second call ends the
  bridge with \<open>process.exit(1)\<close> and changes nothing of the session.
\<close>

definition shutdown :: "state \<Rightarrow> state" where
  "shutdown s =
     (if shutting_down s then s
      else
        let s0 = s\<lparr>shutting_down := True\<rparr>
        in case reg s0 of
             None \<Rightarrow> s0
           | Some r \<Rightarrow>
               let s1 = s0\<lparr>ws_open := False\<rparr>;
                   s2 = (clear_each (pending s1) s1)\<lparr>pending := []\<rparr>
               in (case r of
                     None \<Rightarrow> s2
                   | Some p \<Rightarrow> if \<not> killed (procs s2 ! p) then kill p SIGKILL s2 else s2))"

section \<open>Events and runs\<close>

text \<open>
  One event is one callback of the event loop. A stream or exit event names the
  process it belongs to; a timer event names the timer. The runtime delivers an
  exit once per process and runs a timer callback only while the timer is scheduled.
\<close>

datatype event =
    WsMessage client_msg
  | StdoutData nat string
  | StderrData nat string
  | ProcExit nat "nat option" "string option"
  | ProcError nat string
  | RequestTimeout nat
  | KillTimeout nat
  | WsClose
  | Shutdown

definition step :: "(string \<Rightarrow> parsed option) \<Rightarrow> state \<Rightarrow> event \<Rightarrow> state" where
  "step json_parse s e =
     (case e of
        WsMessage m \<Rightarrow> ws_message m s
      | StdoutData p d \<Rightarrow> if p < length (procs s) then stdout_data json_parse p d s else s
      | StderrData p d \<Rightarrow> if p < length (procs s) then stderr_data p d s else s
      | ProcExit p code sg \<Rightarrow>
          if p < length (procs s) \<and> alive (procs s ! p) then proc_exit p code sg s else s
      | ProcError p message \<Rightarrow> if p < length (procs s) then proc_error message s else s
      | RequestTimeout h \<Rightarrow>
          (case find (\<lambda>t. t_handle t = h) (timers s) of
             Some t \<Rightarrow> request_timeout t s
           | None \<Rightarrow> s)
      | KillTimeout p \<Rightarrow> if p \<in> set (kill_timers s) then kill_timeout p s else s
      | WsClose \<Rightarrow> ws_close s
      | Shutdown \<Rightarrow> shutdown s)"

fun run :: "(string \<Rightarrow> parsed option) \<Rightarrow> state \<Rightarrow> event list \<Rightarrow> state" where
  "run json_parse s [] = s"
| "run json_parse s (e # es) = run json_parse (step json_parse s e) es"

section \<open>The first bridge revision\<close>

text \<open>
  \<^verbatim>\<open>mcp-bridge/server.js\<close> is the bridge before timeouts and size limits. Its session
  has the connection, the closure variable \<open>mcpProcess\<close> (\<open>cur\<close>) and the processes;
  the three handlers below are the ones the claims cite. A message without an \<open>id\<close>
  field is written with \<open>IdAbsent\<close>.
\<close>

text \<open>\<open>mcpProcess.stderr.on('data', ...)\<close> (server.js, lines 99-113).\<close>

definition basic_stderr_data :: "string \<Rightarrow> state \<Rightarrow> state" where
  "basic_stderr_data dataStr s =
     (if ws_open s
      then ws_send (RpcError IdAbsent (- 32000) (''MCP Server Error: '' @ js_trim dataStr)) s
      else s)"

text \<open>\<open>ws.on('close', ...)\<close> (server.js, lines 186-200) and its 5 s force-kill callback.\<close>

definition basic_ws_close :: "state \<Rightarrow> state" where
  "basic_ws_close s =
     (let s0 = s\<lparr>ws_open := False\<rparr>
      in case cur s0 of
           None \<Rightarrow> s0
         | Some p \<Rightarrow>
             if \<not> killed (procs s0 ! p)
             then (kill p SIGTERM s0)\<lparr>kill_timers := kill_timers s0 @ [p]\<rparr>
             else s0)"

definition basic_kill_timeout :: "nat \<Rightarrow> state \<Rightarrow> state" where
  "basic_kill_timeout k s =
     (let s1 = s\<lparr>kill_timers := remove1 k (kill_timers s)\<rparr>
      in case cur s1 of
           None \<Rightarrow> s1
         | Some p \<Rightarrow> if \<not> killed (procs s1 ! p) then kill p SIGKILL s1 else s1)"

section \<open>Notions used to state the properties\<close>

text \<open>The keys of the pending map are pairwise different.\<close>

definition keys_ok :: "state \<Rightarrow> bool" where
  "keys_ok s = distinct (map fst (pending s))"

text \<open>
  Every registration gets a timer handle of its own, so a handle names one Pending
  Request. \<open>handles s\<close> are the registrations whose entry is in the map.
\<close>

definition handles :: "state \<Rightarrow> nat set" where
  "handles s = (ri_timeout \<circ> snd) ` set (pending s)"






text \<open>
  Event \<open>e\<close>, handled in state \<open>s\<close>, resolves the Pending Request with handle \<open>h\<close>:
  its entry leaves the map, or its timer fires.
\<close>

definition resolved_by :: "(string \<Rightarrow> parsed option) \<Rightarrow> state \<Rightarrow> event \<Rightarrow> nat \<Rightarrow> bool" where
  "resolved_by json_parse s e h =
     ((h \<in> handles s \<and> h \<notin> handles (step json_parse s e)) \<or>
      (e = RequestTimeout h \<and> h \<in> t_handle ` set (timers s)))"

text \<open>The client does not send a message with an id that is pending at that moment.\<close>

definition fresh_id :: "state \<Rightarrow> event \<Rightarrow> bool" where
  "fresh_id s e =
     (case e of WsMessage (Rpc r) \<Rightarrow> map_of (pending s) (rpc_id r) = None | _ \<Rightarrow> True)"







text \<open>The number of child processes of the session that run.\<close>

definition live :: "state \<Rightarrow> nat" where
  "live s = length (filter alive (procs s))"

definition is_connect :: "event \<Rightarrow> bool" where
  "is_connect e = (case e of WsMessage (Connect c d ok) \<Rightarrow> True | _ \<Rightarrow> False)"

text \<open>Between two process tables: no process comes back to life, no \<open>killed\<close> flag is reset.\<close>

definition proc_le :: "proc \<Rightarrow> proc \<Rightarrow> bool" where
  "proc_le q q' = ((alive q' \<longrightarrow> alive q) \<and> (killed q \<longrightarrow> killed q'))"

definition procs_le :: "state \<Rightarrow> state \<Rightarrow> bool" where
  "procs_le s s' = list_all2 proc_le (procs s) (procs s')"

text \<open>
  The invariant behind the force-kill callback: every scheduled callback holds a
  process of the table that has got a signal or has exited, and the registry entry,
  if it holds a process, holds one of the table.
\<close>

fun in_table :: "nat option option \<Rightarrow> nat \<Rightarrow> bool" where
  "in_table (Some (Some p)) n = (p < n)"
| "in_table r n = True"

definition kill_inv :: "state \<Rightarrow> bool" where
  "kill_inv s =
     (list_all (\<lambda>p. p < length (procs s) \<and> (killed (procs s ! p) \<or> \<not> alive (procs s ! p)))
        (kill_timers s) \<and>
      in_table (reg s) (length (procs s)))"

text \<open>The handlers that leave the registry entry and the force-kill callbacks alone.\<close>

definition same_kill :: "state \<Rightarrow> state \<Rightarrow> bool" where
  "same_kill s s' = (kill_timers s' = kill_timers s \<and> reg s' = reg s)"

text \<open>
  What the stdout handler does with a text \<open>d\<close> that causes no breach: the buffers of
  process \<open>p\<close> take the text, and the complete lines are processed in order.
\<close>

definition take_text :: "string \<Rightarrow> proc \<Rightarrow> proc" where
  "take_text d q =
     q\<lparr>stdoutBuffer := stdoutBuffer q @ d,
       currentLineBuffer := snd (framer_feed (currentLineBuffer q) d),
       totalResponseSize := totalResponseSize q + length d\<rparr>"

definition feed_text :: "(string \<Rightarrow> parsed option) \<Rightarrow> nat \<Rightarrow> string \<Rightarrow> state \<Rightarrow> state" where
  "feed_text json_parse p d s =
     fold (process_line json_parse p)
       (filter trim_truthy (fst (framer_feed (currentLineBuffer (procs s ! p)) d)))
       (upd_proc p (take_text d) s)"

text \<open>No carry-over buffer of the session holds a newline.\<close>

definition carry_ok :: "state \<Rightarrow> bool" where
  "carry_ok s = list_all (\<lambda>q. newline \<notin> set (currentLineBuffer q)) (procs s)"

text \<open>A change of the buffers of process \<open>p\<close> only.\<close>

definition buffers_only :: "(proc \<Rightarrow> proc) \<Rightarrow> bool" where
  "buffers_only f =
     (\<forall>q. isInitialized (f q) = isInitialized q \<and>
          f (q\<lparr>isInitialized := True\<rparr>) = (f q)\<lparr>isInitialized := True\<rparr>)"

text \<open>\<open>contains xs ys\<close>: the text \<open>ys\<close> has \<open>xs\<close> as a contiguous part.\<close>

fun is_prefix :: "string \<Rightarrow> string \<Rightarrow> bool" where
  "is_prefix [] ys = True"
| "is_prefix (x # xs) [] = False"
| "is_prefix (x # xs) (y # ys) = (x = y \<and> is_prefix xs ys)"

fun contains :: "string \<Rightarrow> string \<Rightarrow> bool" where
  "contains xs [] = (xs = [])"
| "contains xs (y # ys) = (is_prefix xs (y # ys) \<or> contains xs ys)"

section \<open>Example inputs\<close>

text \<open>
  A connect message for \<open>python server.py\<close> in an existing directory, with a spawn that
  succeeds; the request \<open>tools/list\<close> with id \<open>n\<close> and its serialisation; the response
  line a child would write for it.
\<close>

definition demo_connect :: client_msg where
  "demo_connect =
     Connect \<lparr>c_command = Some ''python'', c_args = Some [''server.py''], c_workingDir = None\<rparr>
       True True"

definition demo_request :: "nat \<Rightarrow> client_msg" where
  "demo_request n =
     Rpc \<lparr>rpc_id = IdNum (int n), rpc_method = Some ''tools/list'',
          rpc_text = ''{\"jsonrpc\":\"2.0\",\"id\":'' @ show_nat n @ '',\"method\":\"tools/list\"}''\<rparr>"

definition response_line :: "nat \<Rightarrow> string" where
  "response_line n = ''{\"jsonrpc\":\"2.0\",\"id\":'' @ show_nat n @ '',\"result\":{}}''"

text \<open>What \<open>JSON.parse\<close> gives on the two response lines the examples use; other lines do not occur in them.\<close>

definition demo_parse :: "string \<Rightarrow> parsed option" where
  "demo_parse line =
     (if line = response_line 1 then Some \<lparr>p_id = IdNum 1, p_result = True\<rparr>
      else if line = response_line 0 then Some \<lparr>p_id = IdNum 0, p_result = True\<rparr>
      else None)"

text \<open>Three requests: the first is answered, the second times out, the third is still pending.\<close>

definition demo_trace :: "event list" where
  "demo_trace =
     [WsMessage demo_connect, WsMessage (demo_request 1),
      StdoutData 0 (response_line 1 @ [newline]), WsMessage (demo_request 2),
      RequestTimeout 1, WsMessage (demo_request 3)]"




text \<open>A request \<open>tools/call\<close> with id \<open>n\<close> whose serialisation has 12600 characters.\<close>

definition big_request :: "int \<Rightarrow> rpc_msg" where
  "big_request n =
     \<lparr>rpc_id = IdNum n, rpc_method = Some ''tools/call'', rpc_text = replicate 12600 (CHR ''x'')\<rparr>"

text \<open>The session after \<open>demo_connect\<close>, and after the request 7 that follows it.\<close>

definition connected :: state where
  "connected =
     \<lparr>ws_open = True, shutting_down = False, cur = Some 0, reg = Some (Some 0),
      pending = [], timers = [], next_timer = 0, kill_timers = [],
      procs = [new_proc ''python'' [''server.py''] True], sent = []\<rparr>"


text \<open>A session of the first revision whose connect branch has spawned \<open>python server.py\<close>.\<close>

definition basic_running :: state where
  "basic_running = init\<lparr>procs := [new_proc ''python'' [''server.py''] True], cur := Some 0\<rparr>"

section \<open>The Framer on a whole text\<close>

lemma split_nl_nonempty: "split_nl s \<noteq> []"
  by (induction s) (auto split: list.splits)

lemma split_nl_append:
  "split_nl (a @ b) = butlast (split_nl a) @ split_nl (last (split_nl a) @ b)"
proof (induction a)
  case Nil
  show ?case by simp
next
  case (Cons c a)
  show ?case
  proof (cases "c = newline")
    case True
    with Cons show ?thesis by (simp add: split_nl_nonempty)
  next
    case False
    obtain l ls where sa: "split_nl a = l # ls"
      using split_nl_nonempty by (cases "split_nl a") auto
    obtain m ms where sab: "split_nl (a @ b) = m # ms"
      using split_nl_nonempty by (cases "split_nl (a @ b)") auto
    show ?thesis
    proof (cases ls)
      case Nil
      with Cons False sa sab show ?thesis by simp
    next
      case (Cons x xs)
      with Cons.IH False sa sab show ?thesis by simp
    qed
  qed
qed

lemma split_nl_no_newline: "newline \<notin> set s \<Longrightarrow> split_nl s = [s]"
  by (induction s) auto

lemma split_nl_elems: "l \<in> set (split_nl s) \<Longrightarrow> newline \<notin> set l"
proof (induction s arbitrary: l)
  case Nil
  then show ?case by simp
next
  case (Cons c s)
  obtain m ms where sm: "split_nl s = m # ms"
    using split_nl_nonempty by (cases "split_nl s") auto
  show ?case
  proof (cases "c = newline")
    case True
    with Cons show ?thesis by auto
  next
    case False
    with Cons.prems sm have "l = c # m \<or> l \<in> set ms" by auto
    with Cons.IH sm False show ?thesis by auto
  qed
qed

lemma last_split_nl_no_newline: "newline \<notin> set (last (split_nl s))"
  using split_nl_elems [of "last (split_nl s)" s] split_nl_nonempty [of s] by simp

section \<open>Evaluation of concrete runs\<close>

lemmas eval_defs =
  step_def ws_message_def connect_def parse_command_def new_proc_def forward_def available_def
  register_def method_truthy_def stdout_data_def process_line_def lookup_pending_def
  framer_split_def stderr_data_def proc_exit_def proc_error_def request_timeout_def
  ws_close_def kill_timeout_def shutdown_def kill_def ws_send_def clearTimeout_def
  pending_delete_def upd_proc_def init_def Let_def newline_def is_space_def js_trim_def
  trim_truthy_def MAX_RESPONSE_SIZE_def REQUEST_TIMEOUT_def show_nat.simps digit_char_def
  demo_connect_def demo_request_def response_line_def demo_parse_def
  resolved_by_def handles_def fresh_id_def

lemmas eval2 = basic_stderr_data_def basic_ws_close_def basic_kill_timeout_def basic_running_def


section \<open>Effects of the primitive operations and of the loops\<close>

lemma ws_send_fields [simp]:
  "pending (ws_send m s) = pending s" "timers (ws_send m s) = timers s"
  "next_timer (ws_send m s) = next_timer s" "procs (ws_send m s) = procs s"
  "ws_open (ws_send m s) = ws_open s" "shutting_down (ws_send m s) = shutting_down s"
  "cur (ws_send m s) = cur s" "reg (ws_send m s) = reg s"
  "kill_timers (ws_send m s) = kill_timers s" "sent (ws_send m s) = sent s @ [m]"
  by (simp_all add: ws_send_def)

lemma clearTimeout_fields [simp]:
  "pending (clearTimeout h s) = pending s"
  "timers (clearTimeout h s) = filter (\<lambda>t. t_handle t \<noteq> h) (timers s)"
  "next_timer (clearTimeout h s) = next_timer s" "procs (clearTimeout h s) = procs s"
  "ws_open (clearTimeout h s) = ws_open s" "shutting_down (clearTimeout h s) = shutting_down s"
  "cur (clearTimeout h s) = cur s" "reg (clearTimeout h s) = reg s"
  "kill_timers (clearTimeout h s) = kill_timers s" "sent (clearTimeout h s) = sent s"
  by (simp_all add: clearTimeout_def)

lemma pending_delete_fields [simp]:
  "pending (pending_delete i s) = AList.delete i (pending s)"
  "timers (pending_delete i s) = timers s"
  "next_timer (pending_delete i s) = next_timer s" "procs (pending_delete i s) = procs s"
  "ws_open (pending_delete i s) = ws_open s" "shutting_down (pending_delete i s) = shutting_down s"
  "cur (pending_delete i s) = cur s" "reg (pending_delete i s) = reg s"
  "kill_timers (pending_delete i s) = kill_timers s" "sent (pending_delete i s) = sent s"
  by (simp_all add: pending_delete_def)

lemma upd_proc_fields [simp]:
  "pending (upd_proc p f s) = pending s" "timers (upd_proc p f s) = timers s"
  "next_timer (upd_proc p f s) = next_timer s"
  "procs (upd_proc p f s) = (procs s)[p := f (procs s ! p)]"
  "ws_open (upd_proc p f s) = ws_open s" "shutting_down (upd_proc p f s) = shutting_down s"
  "cur (upd_proc p f s) = cur s" "reg (upd_proc p f s) = reg s"
  "kill_timers (upd_proc p f s) = kill_timers s" "sent (upd_proc p f s) = sent s"
  by (simp_all add: upd_proc_def)

lemma kill_fields [simp]:
  "pending (kill p sg s) = pending s" "timers (kill p sg s) = timers s"
  "next_timer (kill p sg s) = next_timer s"
  "ws_open (kill p sg s) = ws_open s" "shutting_down (kill p sg s) = shutting_down s"
  "cur (kill p sg s) = cur s" "reg (kill p sg s) = reg s"
  "kill_timers (kill p sg s) = kill_timers s" "sent (kill p sg s) = sent s"
  "length (procs (kill p sg s)) = length (procs s)"
  by (simp_all add: kill_def)

lemma breach_each_fields [simp]:
  "next_timer (breach_each tot xs s) = next_timer s" "procs (breach_each tot xs s) = procs s"
  "ws_open (breach_each tot xs s) = ws_open s" "shutting_down (breach_each tot xs s) = shutting_down s"
  "cur (breach_each tot xs s) = cur s" "reg (breach_each tot xs s) = reg s"
  "kill_timers (breach_each tot xs s) = kill_timers s"
  by (induction tot xs s rule: breach_each.induct; simp)+

lemma breach_each_pending:
  "pending (breach_each tot xs s) = filter (\<lambda>x. fst x \<notin> fst ` set xs) (pending s)"
proof (induction tot xs s rule: breach_each.induct)
  case (1 tot s)
  show ?case by simp
next
  case (2 tot i requestInfo rest s)
  show ?case
    by (simp add: 2 AList.delete_eq case_prod_unfold) (rule filter_cong, auto)
qed

lemma breach_each_timers:
  "timers (breach_each tot xs s) =
     filter (\<lambda>t. t_handle t \<notin> (ri_timeout \<circ> snd) ` set xs) (timers s)"
proof (induction tot xs s rule: breach_each.induct)
  case (1 tot s)
  show ?case by simp
next
  case (2 tot i requestInfo rest s)
  show ?case
    by (simp add: 2)
qed

lemma breach_each_sent:
  "sent (breach_each tot xs s) =
     sent s @ (if ws_open s then map (\<lambda>x. RpcError (fst x) (- 32603) (breach_msg tot)) xs else [])"
  by (induction tot xs s rule: breach_each.induct) auto

lemma exit_each_fields [simp]:
  "pending (exit_each code xs s) = pending s"
  "next_timer (exit_each code xs s) = next_timer s" "procs (exit_each code xs s) = procs s"
  "ws_open (exit_each code xs s) = ws_open s" "shutting_down (exit_each code xs s) = shutting_down s"
  "cur (exit_each code xs s) = cur s" "reg (exit_each code xs s) = reg s"
  "kill_timers (exit_each code xs s) = kill_timers s"
  by (induction code xs s rule: exit_each.induct; simp add: Let_def)+


lemma exit_each_sent:
  "sent (exit_each code xs s) =
     sent s @ (if ws_open s then map (\<lambda>x. RpcError (fst x) (- 32603) (exit_msg code)) xs else [])"
  by (induction code xs s rule: exit_each.induct) (auto simp: Let_def)

lemma clear_each_fields [simp]:
  "pending (clear_each xs s) = pending s" "sent (clear_each xs s) = sent s"
  "next_timer (clear_each xs s) = next_timer s" "procs (clear_each xs s) = procs s"
  "ws_open (clear_each xs s) = ws_open s" "shutting_down (clear_each xs s) = shutting_down s"
  "cur (clear_each xs s) = cur s" "reg (clear_each xs s) = reg s"
  "kill_timers (clear_each xs s) = kill_timers s"
  by (induction xs s rule: clear_each.induct; simp)+


section \<open>The keys of the pending map stay distinct\<close>

lemma keys_ok_process_line: "keys_ok s \<Longrightarrow> keys_ok (process_line P p line s)"
  by (auto simp: keys_ok_def process_line_def Let_def AList.distinct_delete
           split: option.splits)

lemma keys_ok_fold_lines: "keys_ok s \<Longrightarrow> keys_ok (fold (process_line P p) ls s)"
  by (induction ls arbitrary: s) (simp_all add: keys_ok_process_line)

lemma keys_ok_stdout: "keys_ok s \<Longrightarrow> keys_ok (stdout_data P p d s)"
proof -
  assume k: "keys_ok s"
  have a: "\<And>f. keys_ok (upd_proc p f s)" using k by (simp add: keys_ok_def)
  have b: "\<And>f tot xs s'. keys_ok s' \<Longrightarrow> keys_ok (upd_proc p f (breach_each tot xs s'))"
    by (simp add: keys_ok_def breach_each_pending distinct_map_filter)
  have c: "\<And>f s'. keys_ok s' \<Longrightarrow> keys_ok (upd_proc p f s')" by (simp add: keys_ok_def)
  show ?thesis
    unfolding stdout_data_def Let_def
    by (auto simp: k a b c keys_ok_fold_lines split: prod.splits)
qed

lemma keys_ok_step: "keys_ok s \<Longrightarrow> keys_ok (step P s e)"
proof (cases e)
  case (WsMessage m)
  assume k: "keys_ok s"
  show ?thesis
    using k unfolding WsMessage step_def
    by (auto simp: ws_message_def connect_def forward_def register_def keys_ok_def Let_def
                   AList.distinct_update split: client_msg.splits option.splits prod.splits)
next
  case (StdoutData p d)
  assume "keys_ok s" then show ?thesis
    by (simp add: StdoutData step_def keys_ok_stdout)
next
  case (StderrData p d)
  assume "keys_ok s" then show ?thesis
    by (simp add: StderrData step_def stderr_data_def keys_ok_def)
next
  case (ProcExit p code sg)
  assume "keys_ok s" then show ?thesis
    by (auto simp: ProcExit step_def proc_exit_def keys_ok_def Let_def split: option.splits)
next
  case (ProcError p m)
  assume "keys_ok s" then show ?thesis
    by (simp add: ProcError step_def proc_error_def keys_ok_def)
next
  case (RequestTimeout h)
  assume "keys_ok s" then show ?thesis
    by (auto simp: RequestTimeout step_def request_timeout_def keys_ok_def Let_def
                   pending_delete_def ws_send_def AList.distinct_delete split: option.splits)
next
  case (KillTimeout p)
  assume "keys_ok s" then show ?thesis
    by (simp add: KillTimeout step_def kill_timeout_def keys_ok_def Let_def)
next
  case WsClose
  assume "keys_ok s" then show ?thesis
    by (auto simp: WsClose step_def ws_close_def keys_ok_def Let_def split: option.splits)
next
  case Shutdown
  assume "keys_ok s" then show ?thesis
    by (auto simp: Shutdown step_def shutdown_def keys_ok_def Let_def split: option.splits)
qed

lemma keys_ok_run: "keys_ok s \<Longrightarrow> keys_ok (run P s evs)"
  by (induction evs arbitrary: s) (simp_all add: keys_ok_step)

lemma keys_ok_init: "keys_ok init"
  by (simp add: keys_ok_def init_def)

section \<open>The request tracker keeps its invariant\<close>























section \<open>Registrations, and the events that resolve a request\<close>

















section \<open>No child comes back to life\<close>

lemma proc_le_refl: "proc_le q q"
  by (simp add: proc_le_def)

lemma procs_le_refl: "procs s' = procs s \<Longrightarrow> procs_le s s'"
  by (simp add: procs_le_def list_all2_refl proc_le_refl)

lemma procs_le_trans:
  assumes "procs_le s s'" and "procs_le s' s''"
  shows "procs_le s s''"
proof -
  have "\<And>a b c. proc_le a b \<Longrightarrow> proc_le b c \<Longrightarrow> proc_le a c"
    by (auto simp: proc_le_def)
  then show ?thesis
    using assms unfolding procs_le_def by (rule list_all2_trans)
qed

lemma procs_le_eq: "procs_le s s' \<Longrightarrow> procs s'' = procs s' \<Longrightarrow> procs_le s s''"
  by (simp add: procs_le_def)

lemma procs_le_upd:
  assumes "\<And>q. proc_le q (f q)"
  shows "procs_le s (upd_proc p f s)"
proof -
  have "list_all2 proc_le ((procs s)[p := procs s ! p]) ((procs s)[p := f (procs s ! p)])"
    by (rule list_all2_update_cong) (simp_all add: list_all2_refl proc_le_refl assms)
  then show ?thesis by (simp add: procs_le_def)
qed

lemma procs_le_then_upd:
  assumes "procs_le s s0" and "\<And>q. proc_le q (f q)"
  shows "procs_le s (upd_proc p f s0)"
  using procs_le_trans [OF assms(1) procs_le_upd [of f s0 p]] assms(2) by simp

lemma procs_le_kill: "procs_le s (kill p sg s)"
proof (cases "alive (procs s ! p)")
  case True
  have "procs_le s (upd_proc p (\<lambda>q. q\<lparr>signals := signals q @ [sg], killed := True\<rparr>) s)"
    by (rule procs_le_upd) (simp add: proc_le_def)
  then show ?thesis using True by (simp add: kill_def)
next
  case False
  then show ?thesis by (simp add: kill_def procs_le_refl)
qed

lemma procs_le_then_kill: "procs_le s s0 \<Longrightarrow> procs_le s (kill p sg s0)"
  using procs_le_trans procs_le_kill by blast

lemma procs_le_process_line: "procs_le s (process_line P p line s)"
proof (cases "P line")
  case None
  then show ?thesis by (simp add: process_line_def procs_le_refl)
next
  case (Some m)
  show ?thesis
  proof (cases "MAX_RESPONSE_SIZE div 2 < length line")
    case True
    then show ?thesis
      using Some by (auto simp: process_line_def Let_def split: option.splits intro!: procs_le_refl)
  next
    case False
    define s1 where "s1 = (case lookup_pending s (p_id m) of
                        Some requestInfo \<Rightarrow>
                          pending_delete (p_id m) (clearTimeout (ri_timeout requestInfo) s)
                      | None \<Rightarrow> s)"
    have "procs s1 = procs s" by (simp add: s1_def split: option.splits)
    then have a: "procs_le s (ws_send (Forwarded line) s1)" by (simp add: procs_le_refl)
    have b: "procs_le s (upd_proc p (\<lambda>q. q\<lparr>isInitialized := True\<rparr>) (ws_send (Forwarded line) s1))"
      by (rule procs_le_then_upd [OF a]) (simp add: proc_le_def)
    show ?thesis
      using Some False a b by (simp add: process_line_def Let_def s1_def [symmetric])
  qed
qed

lemma procs_le_fold_lines: "procs_le s (fold (process_line P p) ls s)"
proof (induction ls arbitrary: s)
  case Nil
  show ?case by (simp add: procs_le_refl)
next
  case (Cons l ls)
  show ?case using procs_le_trans [OF procs_le_process_line Cons.IH] by simp
qed

lemma procs_le_stdout: "procs_le s (stdout_data P p d s)"
proof (cases "shutting_down s \<or> \<not> ws_open s")
  case True
  then show ?thesis by (auto simp: stdout_data_def procs_le_refl)
next
  case False
  define s1 where "s1 = upd_proc p (\<lambda>q. q\<lparr>stdoutBuffer := stdoutBuffer q @ d,
                                   currentLineBuffer := currentLineBuffer q @ d,
                                   totalResponseSize := totalResponseSize q + length d\<rparr>) s"
  have a: "procs_le s s1" unfolding s1_def by (rule procs_le_upd) (simp add: proc_le_def)
  show ?thesis
  proof (cases "MAX_RESPONSE_SIZE < totalResponseSize (procs s1 ! p)")
    case True
    have "procs_le s (breach_each (totalResponseSize (procs s1 ! p)) (pending s1) s1)"
      by (rule procs_le_eq [OF a]) simp
    then have "procs_le s (upd_proc p (\<lambda>q. q\<lparr>currentLineBuffer := [], totalResponseSize := 0\<rparr>)
               (breach_each (totalResponseSize (procs s1 ! p)) (pending s1) s1))"
      by (rule procs_le_then_upd) (simp add: proc_le_def)
    then show ?thesis
      using False True by (simp add: stdout_data_def Let_def s1_def [symmetric])
  next
    case nb: False
    obtain ls carry where fs: "framer_split (currentLineBuffer (procs s1 ! p)) = (ls, carry)"
      by (cases "framer_split (currentLineBuffer (procs s1 ! p))") auto
    define s2 where "s2 = upd_proc p (\<lambda>q. q\<lparr>currentLineBuffer := carry\<rparr>) s1"
    have b: "procs_le s s2" unfolding s2_def by (rule procs_le_then_upd [OF a]) (simp add: proc_le_def)
    have "stdout_data P p d s = fold (process_line P p) (filter trim_truthy ls) s2"
      using False nb fs by (simp add: stdout_data_def Let_def s1_def [symmetric] s2_def)
    then show ?thesis using procs_le_trans [OF b procs_le_fold_lines] by simp
  qed
qed

lemma procs_le_exit: "procs_le s (proc_exit p code sg s)"
proof -
  have "procs_le s (upd_proc p (\<lambda>q. q\<lparr>alive := False\<rparr>) s)"
    by (rule procs_le_upd) (simp add: proc_le_def)
  then show ?thesis
    by (auto simp: proc_exit_def Let_def procs_le_def list_all2_refl proc_le_refl split: option.splits)
qed

lemma procs_le_forward: "procs_le s (forward r s)"
proof -
  have "\<And>p. procs_le s (upd_proc p (\<lambda>q. q\<lparr>stdin := stdin q @ [rpc_text r @ [newline]]\<rparr>) s)"
    by (rule procs_le_upd) (simp add: proc_le_def)
  then show ?thesis
    by (auto simp: forward_def Let_def register_def procs_le_def list_all2_refl proc_le_refl split: option.splits)
qed

lemma procs_le_close: "procs_le s (ws_close s)"
proof (cases "reg s")
  case None
  then show ?thesis by (simp add: ws_close_def procs_le_refl)
next
  case (Some r)
  define s1 where "s1 = (clear_each (pending s) (s\<lparr>ws_open := False\<rparr>))\<lparr>pending := []\<rparr>"
  have a: "procs_le s s1" by (rule procs_le_refl) (simp add: s1_def)
  show ?thesis
  proof (cases r)
    case None
    then show ?thesis using Some a by (simp add: ws_close_def Let_def s1_def procs_le_def)
  next
    case (Some p)
    have "procs_le s (kill p SIGTERM s1)" by (rule procs_le_then_kill [OF a])
    then show ?thesis
      using Some \<open>reg s = Some r\<close> a by (simp add: ws_close_def Let_def s1_def procs_le_def)
  qed
qed

lemma procs_le_kill_timeout: "procs_le s (kill_timeout p s)"
proof -
  have a: "procs_le s (s\<lparr>kill_timers := remove1 p (kill_timers s)\<rparr>)" by (rule procs_le_refl) simp
  have "procs_le s (kill p SIGKILL (s\<lparr>kill_timers := remove1 p (kill_timers s)\<rparr>))"
    by (rule procs_le_then_kill [OF a])
  then show ?thesis using a by (simp add: kill_timeout_def Let_def)
qed

lemma procs_le_shutdown: "procs_le s (shutdown s)"
proof (cases "shutting_down s \<or> reg s = None")
  case True
  then show ?thesis by (auto simp: shutdown_def Let_def procs_le_refl)
next
  case False
  then obtain r where r: "reg s = Some r" by auto
  define s2 where "s2 = (clear_each (pending s) (s\<lparr>shutting_down := True, ws_open := False\<rparr>))\<lparr>pending := []\<rparr>"
  have a: "procs_le s s2" by (rule procs_le_refl) (simp add: s2_def)
  show ?thesis
  proof (cases r)
    case None
    then show ?thesis using False r a by (simp add: shutdown_def Let_def s2_def)
  next
    case (Some p)
    have "procs_le s (kill p SIGKILL s2)" by (rule procs_le_then_kill [OF a])
    then show ?thesis using Some False r a by (simp add: shutdown_def Let_def s2_def)
  qed
qed

lemma procs_le_step:
  assumes "\<not> is_connect e"
  shows "procs_le s (step P s e)"
proof (cases e)
  case (WsMessage m)
  then show ?thesis
    using assms procs_le_forward [of s]
    by (cases m) (auto simp: step_def ws_message_def is_connect_def procs_le_refl)
next
  case (StdoutData p d)
  then show ?thesis using procs_le_stdout [of s P p d] by (simp add: step_def procs_le_refl)
next
  case (StderrData p d)
  have "procs_le s (stderr_data p d s)"
    unfolding stderr_data_def by (rule procs_le_upd) (simp add: proc_le_def)
  then show ?thesis using StderrData by (simp add: step_def procs_le_refl)
next
  case (ProcExit p code sg)
  then show ?thesis using procs_le_exit [of s p code sg] by (simp add: step_def procs_le_refl)
next
  case (ProcError p m)
  then show ?thesis by (simp add: step_def proc_error_def procs_le_refl)
next
  case (RequestTimeout h)
  then show ?thesis
    by (auto simp: step_def request_timeout_def Let_def procs_le_refl split: option.splits)
next
  case (KillTimeout p)
  then show ?thesis using procs_le_kill_timeout [of s p] by (simp add: step_def procs_le_refl)
next
  case WsClose
  then show ?thesis using procs_le_close by (simp add: step_def)
next
  case Shutdown
  then show ?thesis using procs_le_shutdown by (simp add: step_def)
qed

lemma live_mono:
  "list_all2 proc_le xs ys \<Longrightarrow> length (filter alive ys) \<le> length (filter alive xs)"
  by (induction rule: list_all2_induct) (auto simp: proc_le_def)

lemma procs_le_live: "procs_le s s' \<Longrightarrow> live s' \<le> live s"
  by (simp add: procs_le_def live_def live_mono)

lemma connect_live: "live (connect c d ok s) \<le> Suc (live s)"
  by (auto simp: connect_def live_def split: option.splits prod.splits)

lemma step_live: "live (step P s e) \<le> live s + (if is_connect e then 1 else 0)"
proof (cases "is_connect e")
  case True
  then obtain c d ok where e: "e = WsMessage (Connect c d ok)"
    by (auto simp: is_connect_def split: event.splits client_msg.splits)
  show ?thesis using connect_live [of c d ok s] by (simp add: e step_def ws_message_def is_connect_def)
next
  case False
  then show ?thesis using procs_le_live [OF procs_le_step [OF False]] by simp
qed

lemma run_live: "live (run P s evs) \<le> live s + length (filter is_connect evs)"
proof (induction evs arbitrary: s)
  case Nil
  show ?case by simp
next
  case (Cons e es)
  have "live (run P (step P s e) es) \<le> live (step P s e) + length (filter is_connect es)"
    by (rule Cons.IH)
  then show ?case using step_live [of P s e] by auto
qed

section \<open>The force-kill callback never finds a process to kill\<close>

lemma process_line_same_kill: "same_kill s (process_line P p line s)"
  by (simp add: process_line_def same_kill_def Let_def split: option.splits)

lemma fold_lines_same_kill: "same_kill s (fold (process_line P p) ls s)"
proof (induction ls arbitrary: s)
  case Nil
  show ?case by (simp add: same_kill_def)
next
  case (Cons l ls)
  show ?case
    using Cons.IH [of "process_line P p l s"] process_line_same_kill [of s P p l]
    by (simp add: same_kill_def)
qed

lemma stdout_same_kill: "same_kill s (stdout_data P p d s)"
proof -
  have "\<And>ls s0. same_kill s s0 \<Longrightarrow> same_kill s (fold (process_line P p) ls s0)"
    using fold_lines_same_kill by (fastforce simp: same_kill_def)
  then show ?thesis
    by (auto simp: stdout_data_def Let_def same_kill_def split: prod.splits)
qed

lemma procs_le_kill_inv:
  assumes "kill_inv s" and "procs_le s s'" and "kill_timers s' = kill_timers s"
      and "reg s' = reg s \<or> reg s' = None \<or> reg s' = Some None"
  shows "kill_inv s'"
proof -
  have l: "length (procs s') = length (procs s)"
    using assms(2) by (simp add: procs_le_def list_all2_lengthD)
  have n: "\<And>p. p < length (procs s) \<Longrightarrow> proc_le (procs s ! p) (procs s' ! p)"
    using assms(2) by (simp add: procs_le_def list_all2_nthD)
  have "list_all (\<lambda>p. p < length (procs s') \<and> (killed (procs s' ! p) \<or> \<not> alive (procs s' ! p)))
          (kill_timers s')"
    using assms(1,3) l n by (auto simp: kill_inv_def list_all_iff proc_le_def)
  then show ?thesis
    using assms(1,4) l by (auto simp: kill_inv_def)
qed

lemma kill_at:
  "p < length (procs s) \<Longrightarrow>
   killed (procs (kill p sg s) ! p) \<or> \<not> alive (procs (kill p sg s) ! p)"
  by (simp add: kill_def)

lemma close_kill_inv:
  assumes "kill_inv s"
  shows "kill_inv (ws_close s)"
proof (cases "reg s")
  case None
  then show ?thesis using assms by (simp add: ws_close_def kill_inv_def)
next
  case (Some r)
  define s1 where "s1 = (clear_each (pending s) (s\<lparr>ws_open := False\<rparr>))\<lparr>pending := []\<rparr>"
  have f: "procs s1 = procs s" "kill_timers s1 = kill_timers s" "reg s1 = reg s"
    by (simp_all add: s1_def)
  have k1: "kill_inv s1" using assms f by (simp add: kill_inv_def)
  have a: "kill_inv (s1\<lparr>reg := None\<rparr>)"
    using assms f by (simp add: kill_inv_def split: option.splits)
  show ?thesis
  proof (cases r)
    case None
    then show ?thesis using Some a by (simp add: ws_close_def Let_def s1_def)
  next
    case (Some p)
    have pl: "p < length (procs s)" using assms \<open>reg s = Some r\<close> Some by (simp add: kill_inv_def)
    show ?thesis
    proof (cases "killed (procs s ! p)")
      case True
      then show ?thesis
        using Some \<open>reg s = Some r\<close> a by (simp add: ws_close_def Let_def s1_def)
    next
      case False
      have le: "procs_le s1 (kill p SIGTERM s1)" by (rule procs_le_kill)
      have b: "kill_inv (kill p SIGTERM s1)"
        by (rule procs_le_kill_inv [OF k1 le]) simp_all
      have c: "killed (procs (kill p SIGTERM s1) ! p) \<or> \<not> alive (procs (kill p SIGTERM s1) ! p)"
        using kill_at [of p s1 SIGTERM] pl f by simp
      have "kill_inv ((kill p SIGTERM s1)\<lparr>kill_timers := kill_timers s1 @ [p], reg := None\<rparr>)"
        using b c pl f by (simp add: kill_inv_def)
      then show ?thesis
        using Some \<open>reg s = Some r\<close> False by (simp add: ws_close_def Let_def s1_def)
    qed
  qed
qed

lemma kill_timeout_kill_inv:
  assumes "kill_inv s"
  shows "kill_inv (kill_timeout p s)"
proof -
  define s1 where "s1 = s\<lparr>kill_timers := remove1 p (kill_timers s)\<rparr>"
  have "set (remove1 p (kill_timers s)) \<subseteq> set (kill_timers s)" by (rule set_remove1_subset)
  then have a: "kill_inv s1"
    using assms by (auto simp: kill_inv_def s1_def list_all_iff)
  have b: "kill_inv (kill p SIGKILL s1)"
    using procs_le_kill_inv [OF a procs_le_kill] by simp
  show ?thesis using a b by (simp add: kill_timeout_def Let_def s1_def)
qed

lemma connect_kill_inv:
  assumes "kill_inv s"
  shows "kill_inv (connect c d ok s)"
  using assms
  by (auto simp: connect_def kill_inv_def list_all_iff nth_append
           split: option.splits prod.splits)

lemma step_kill_inv:
  assumes k: "kill_inv s"
  shows "kill_inv (step P s e)"
proof (cases e)
  case (WsMessage m)
  show ?thesis
  proof (cases m)
    case Invalid
    then show ?thesis using k WsMessage by (simp add: step_def ws_message_def)
  next
    case (Connect c d ok)
    then show ?thesis using connect_kill_inv [OF k] k WsMessage by (simp add: step_def ws_message_def)
  next
    case (Rpc r)
    have "kill_timers (forward r s) = kill_timers s" "reg (forward r s) = reg s"
      by (simp_all add: forward_def Let_def register_def split: option.splits)
    then have "kill_inv (forward r s)"
      using procs_le_kill_inv [OF k procs_le_forward] by simp
    then show ?thesis using k WsMessage Rpc by (simp add: step_def ws_message_def)
  qed
next
  case (StdoutData p d)
  have "kill_inv (stdout_data P p d s)"
    using procs_le_kill_inv [OF k procs_le_stdout] stdout_same_kill [of s P p d]
    by (simp add: same_kill_def)
  then show ?thesis using k StdoutData by (simp add: step_def)
next
  case (StderrData p d)
  have "procs_le s (stderr_data p d s)"
    unfolding stderr_data_def by (rule procs_le_upd) (simp add: proc_le_def)
  then have "kill_inv (stderr_data p d s)"
    using procs_le_kill_inv [OF k] by (simp add: stderr_data_def)
  then show ?thesis using k StderrData by (simp add: step_def)
next
  case (ProcExit p code sg)
  have "kill_timers (proc_exit p code sg s) = kill_timers s"
       "reg (proc_exit p code sg s) = reg s \<or> reg (proc_exit p code sg s) = None \<or>
        reg (proc_exit p code sg s) = Some None"
    by (auto simp: proc_exit_def Let_def split: option.splits)
  then have "kill_inv (proc_exit p code sg s)"
    using procs_le_kill_inv [OF k procs_le_exit] by blast
  then show ?thesis using k ProcExit by (simp add: step_def)
next
  case (ProcError p m)
  then show ?thesis
    using k by (auto simp: step_def proc_error_def kill_inv_def split: option.splits)
next
  case (RequestTimeout h)
  then show ?thesis
    using k by (auto simp: step_def request_timeout_def Let_def kill_inv_def pending_delete_def
                           ws_send_def split: option.splits)
next
  case (KillTimeout p)
  then show ?thesis using k kill_timeout_kill_inv [OF k] by (simp add: step_def)
next
  case WsClose
  then show ?thesis using close_kill_inv [OF k] by (simp add: step_def)
next
  case Shutdown
  have "kill_timers (shutdown s) = kill_timers s"
       "reg (shutdown s) = reg s"
    by (auto simp: shutdown_def Let_def split: option.splits)
  then have "kill_inv (shutdown s)"
    using procs_le_kill_inv [OF k procs_le_shutdown] by simp
  then show ?thesis using Shutdown by (simp add: step_def)
qed

lemma run_kill_inv: "kill_inv s \<Longrightarrow> kill_inv (run P s evs)"
  by (induction evs arbitrary: s) (simp_all add: step_kill_inv)

lemma kill_inv_init: "kill_inv init"
  by (simp add: kill_inv_def init_def)

section \<open>The stdout handler below the cumulative limit\<close>

lemma stdout_data_feed:
  assumes "p < length (procs s)" and "ws_open s" and "\<not> shutting_down s"
      and "totalResponseSize (procs s ! p) + length d \<le> MAX_RESPONSE_SIZE"
  shows "stdout_data P p d s = feed_text P p d s"
proof -
  have "upd_proc p (\<lambda>q. q\<lparr>currentLineBuffer := last (split_nl (currentLineBuffer (procs s ! p) @ d))\<rparr>)
          (upd_proc p (\<lambda>q. q\<lparr>stdoutBuffer := stdoutBuffer q @ d,
                              currentLineBuffer := currentLineBuffer q @ d,
                              totalResponseSize := totalResponseSize q + length d\<rparr>) s) =
        upd_proc p (take_text d) s"
    using assms(1)
    by (cases "procs s ! p") (simp add: upd_proc_def take_text_def framer_feed_def framer_split_def)
  then show ?thesis
    using assms
    by (simp add: stdout_data_def feed_text_def Let_def framer_feed_def framer_split_def)
qed

lemma take_text_buffers_only: "buffers_only (take_text d)"
  by (simp add: buffers_only_def take_text_def)

lemma upd_proc_twice:
  "upd_proc p g (upd_proc p f s) = upd_proc p (g \<circ> f) s" if "p < length (procs s)"
  using that by (simp add: upd_proc_def)

lemma process_line_upd:
  assumes "p < length (procs s)" and b: "buffers_only f"
  shows "process_line P p l (upd_proc p f s) = upd_proc p f (process_line P p l s)"
proof -
  have i: "\<And>q. isInitialized (f q) = isInitialized q"
    and c: "\<And>q. f (q\<lparr>isInitialized := True\<rparr>) = (f q)\<lparr>isInitialized := True\<rparr>"
    using b by (simp_all add: buffers_only_def)
  have u: "\<And>s0. procs s0 = procs s \<Longrightarrow>
        upd_proc p (\<lambda>q. q\<lparr>isInitialized := True\<rparr>) (upd_proc p f s0) =
        upd_proc p f (upd_proc p (\<lambda>q. q\<lparr>isInitialized := True\<rparr>) s0)"
    using assms(1) by (simp add: upd_proc_def c)
  have w: "\<And>m s0. ws_send m (upd_proc p f s0) = upd_proc p f (ws_send m s0)"
    by (simp add: upd_proc_def ws_send_def)
  have d: "\<And>i s0. pending_delete i (upd_proc p f s0) = upd_proc p f (pending_delete i s0)"
    by (simp add: upd_proc_def pending_delete_def)
  have t: "\<And>h s0. clearTimeout h (upd_proc p f s0) = upd_proc p f (clearTimeout h s0)"
    by (simp add: upd_proc_def clearTimeout_def)
  have l: "\<And>i. lookup_pending (upd_proc p f s) i = lookup_pending s i"
    by (simp add: lookup_pending_def)
  show ?thesis
    using assms(1)
    by (simp add: process_line_def Let_def l w d t u i split: option.splits)
qed

lemma process_line_length: "length (procs (process_line P p l s)) = length (procs s)"
  by (simp add: process_line_def Let_def split: option.splits)

lemma fold_lines_upd:
  assumes "p < length (procs s)" and "buffers_only f"
  shows "fold (process_line P p) ls (upd_proc p f s) = upd_proc p f (fold (process_line P p) ls s)"
  using assms(1)
proof (induction ls arbitrary: s)
  case Nil
  show ?case by simp
next
  case (Cons l ls)
  have "p < length (procs (process_line P p l s))" using Cons.prems by (simp add: process_line_length)
  then show ?case
    using Cons.IH [of "process_line P p l s"] process_line_upd [OF Cons.prems assms(2), of P l]
    by simp
qed

lemma process_line_keeps:
  "ws_open (process_line P p l s) = ws_open s"
  "shutting_down (process_line P p l s) = shutting_down s"
  "p < length (procs s) \<Longrightarrow>
     currentLineBuffer (procs (process_line P p l s) ! p) = currentLineBuffer (procs s ! p)"
  "p < length (procs s) \<Longrightarrow>
     totalResponseSize (procs (process_line P p l s) ! p) = totalResponseSize (procs s ! p)"
  by (simp_all add: process_line_def Let_def split: option.splits)

lemma fold_lines_keeps:
  "ws_open (fold (process_line P p) ls s) = ws_open s
   \<and> shutting_down (fold (process_line P p) ls s) = shutting_down s
   \<and> length (procs (fold (process_line P p) ls s)) = length (procs s)
   \<and> (p < length (procs s) \<longrightarrow>
        currentLineBuffer (procs (fold (process_line P p) ls s) ! p) = currentLineBuffer (procs s ! p) \<and>
        totalResponseSize (procs (fold (process_line P p) ls s) ! p) = totalResponseSize (procs s ! p))"
proof (induction ls arbitrary: s)
  case Nil
  show ?case by simp
next
  case (Cons l ls)
  show ?case
    using Cons.IH [of "process_line P p l s"]
    by (simp add: process_line_keeps process_line_length)
qed

lemma feed_text_keeps:
  assumes "p < length (procs s)"
  shows "ws_open (feed_text P p d s) = ws_open s"
    and "shutting_down (feed_text P p d s) = shutting_down s"
    and "length (procs (feed_text P p d s)) = length (procs s)"
    and "currentLineBuffer (procs (feed_text P p d s) ! p) =
           snd (framer_feed (currentLineBuffer (procs s ! p)) d)"
    and "totalResponseSize (procs (feed_text P p d s) ! p) = totalResponseSize (procs s ! p) + length d"
  using assms fold_lines_keeps [of P p _ "upd_proc p (take_text d) s"]
  by (simp_all add: feed_text_def take_text_def)

lemma take_text_append:
  "take_text d2 (take_text d1 q) = take_text (d1 @ d2) q"
proof -
  have "last (split_nl (last (split_nl (currentLineBuffer q @ d1)) @ d2)) =
        last (split_nl (currentLineBuffer q @ d1 @ d2))"
    using split_nl_append [of "currentLineBuffer q @ d1" d2]
    by (simp add: split_nl_nonempty)
  then show ?thesis
    by (simp add: take_text_def framer_feed_def framer_split_def)
qed

lemma framer_feed_append:
  "fst (framer_feed c (d1 @ d2)) =
     fst (framer_feed c d1) @ fst (framer_feed (snd (framer_feed c d1)) d2)"
  using split_nl_append [of "c @ d1" d2]
  by (simp add: framer_feed_def framer_split_def butlast_append split_nl_nonempty)

lemma feed_text_append:
  assumes "p < length (procs s)"
  shows "feed_text P p d2 (feed_text P p d1 s) = feed_text P p (d1 @ d2) s"
proof -
  let ?c = "currentLineBuffer (procs s ! p)"
  let ?l1 = "filter trim_truthy (fst (framer_feed ?c d1))"
  let ?l2 = "filter trim_truthy (fst (framer_feed (snd (framer_feed ?c d1)) d2))"
  have pl: "p < length (procs (upd_proc p (take_text d1) s))" using assms by simp
  have "feed_text P p d2 (feed_text P p d1 s) =
        fold (process_line P p) ?l2 (upd_proc p (take_text d2) (feed_text P p d1 s))"
    using assms by (simp add: feed_text_def [of P p d2] feed_text_keeps)
  also have "upd_proc p (take_text d2) (feed_text P p d1 s) =
        fold (process_line P p) ?l1 (upd_proc p (take_text d2) (upd_proc p (take_text d1) s))"
    using fold_lines_upd [OF pl take_text_buffers_only, of P ?l1 d2]
    by (simp add: feed_text_def)
  also have "upd_proc p (take_text d2) (upd_proc p (take_text d1) s) =
        upd_proc p (take_text (d1 @ d2)) s"
    using assms by (simp add: upd_proc_twice comp_def take_text_append)
  finally show ?thesis
    by (simp add: feed_text_def [of P p "d1 @ d2"] framer_feed_append)
qed

lemma feed_text_empty:
  assumes "p < length (procs s)" and "newline \<notin> set (currentLineBuffer (procs s ! p))"
  shows "feed_text P p [] s = s"
proof -
  have "take_text [] (procs s ! p) = procs s ! p"
    using assms(2) by (simp add: take_text_def framer_feed_def framer_split_def split_nl_no_newline)
  then have "upd_proc p (take_text []) s = s" by (simp add: upd_proc_def)
  then show ?thesis
    using assms(2) by (simp add: feed_text_def framer_feed_def framer_split_def split_nl_no_newline)
qed

lemma run_stdout_chunks:
  assumes "p < length (procs s)" and "ws_open s" and "\<not> shutting_down s"
      and "newline \<notin> set (currentLineBuffer (procs s ! p))"
      and "totalResponseSize (procs s ! p) + length (concat chunks) \<le> MAX_RESPONSE_SIZE"
  shows "run P s (map (StdoutData p) chunks) = feed_text P p (concat chunks) s"
  using assms
proof (induction chunks arbitrary: s)
  case Nil
  then show ?case by (simp add: feed_text_empty)
next
  case (Cons d ds)
  let ?s' = "feed_text P p d s"
  have st: "step P s (StdoutData p d) = ?s'"
    using Cons.prems by (simp add: step_def stdout_data_feed)
  have k: "p < length (procs ?s')" "ws_open ?s'" "\<not> shutting_down ?s'"
    using Cons.prems by (simp_all add: feed_text_keeps)
  have n: "newline \<notin> set (currentLineBuffer (procs ?s' ! p))"
    using Cons.prems(1)
    by (simp add: feed_text_keeps framer_feed_def framer_split_def last_split_nl_no_newline)
  have t: "totalResponseSize (procs ?s' ! p) + length (concat ds) \<le> MAX_RESPONSE_SIZE"
    using Cons.prems by (simp add: feed_text_keeps)
  show ?case
    using Cons.IH [OF k n t] st feed_text_append [OF Cons.prems(1), of P ds d for ds]
    by (simp add: feed_text_append [OF Cons.prems(1)])
qed

section \<open>What resolves a request\<close>









section \<open>The carry-over buffers hold no newline\<close>

lemma carry_ok_eq: "carry_ok s \<Longrightarrow> procs s' = procs s \<Longrightarrow> carry_ok s'"
  by (simp add: carry_ok_def)

lemma carry_ok_upd:
  assumes "carry_ok s"
      and "\<And>q. newline \<notin> set (currentLineBuffer q) \<Longrightarrow> newline \<notin> set (currentLineBuffer (f q))"
  shows "carry_ok (upd_proc p f s)"
proof -
  have "newline \<notin> set (currentLineBuffer ((procs s)[p := f (procs s ! p)] ! n))"
    if "n < length (procs s)" for n
    using assms that by (cases "n = p") (simp_all add: carry_ok_def list_all_length)
  then show ?thesis by (simp add: carry_ok_def list_all_length)
qed

lemma carry_ok_set:
  assumes "carry_ok s" and "length (procs s0) = length (procs s)"
      and "\<And>i. i < length (procs s) \<Longrightarrow> i \<noteq> p \<Longrightarrow> procs s0 ! i = procs s ! i"
      and "\<And>q. newline \<notin> set (currentLineBuffer (f q))"
  shows "carry_ok (upd_proc p f s0)"
proof -
  have "newline \<notin> set (currentLineBuffer ((procs s0)[p := f (procs s0 ! p)] ! n))"
    if "n < length (procs s)" for n
    using assms that by (cases "n = p") (simp_all add: carry_ok_def list_all_length)
  then show ?thesis using assms(2) by (simp add: carry_ok_def list_all_length)
qed

lemma carry_ok_kill: "carry_ok s \<Longrightarrow> carry_ok (kill p sg s)"
  by (simp add: kill_def carry_ok_upd)

lemma carry_ok_process_line:
  assumes "carry_ok s"
  shows "carry_ok (process_line P p line s)"
proof (cases "P line")
  case None
  then show ?thesis using assms by (simp add: process_line_def)
next
  case (Some m)
  show ?thesis
  proof (cases "MAX_RESPONSE_SIZE div 2 < length line")
    case True
    then show ?thesis
      using Some assms
      by (auto simp: process_line_def Let_def split: option.splits intro: carry_ok_eq)
  next
    case False
    define s1 where "s1 = (case lookup_pending s (p_id m) of
                        Some requestInfo \<Rightarrow>
                          pending_delete (p_id m) (clearTimeout (ri_timeout requestInfo) s)
                      | None \<Rightarrow> s)"
    have "procs s1 = procs s" by (simp add: s1_def split: option.splits)
    then have a: "carry_ok (ws_send (Forwarded line) s1)"
      using assms by (simp add: carry_ok_def)
    have b: "carry_ok (upd_proc p (\<lambda>q. q\<lparr>isInitialized := True\<rparr>) (ws_send (Forwarded line) s1))"
      by (rule carry_ok_upd [OF a]) simp
    show ?thesis
      using Some False a b by (simp add: process_line_def Let_def s1_def [symmetric])
  qed
qed

lemma carry_ok_fold_lines: "carry_ok s \<Longrightarrow> carry_ok (fold (process_line P p) ls s)"
  by (induction ls arbitrary: s) (simp_all add: carry_ok_process_line)

lemma carry_ok_stdout:
  assumes "carry_ok s"
  shows "carry_ok (stdout_data P p d s)"
proof (cases "shutting_down s \<or> \<not> ws_open s")
  case True
  then show ?thesis using assms by (auto simp: stdout_data_def)
next
  case False
  define s1 where "s1 = upd_proc p (\<lambda>q. q\<lparr>stdoutBuffer := stdoutBuffer q @ d,
                                   currentLineBuffer := currentLineBuffer q @ d,
                                   totalResponseSize := totalResponseSize q + length d\<rparr>) s"
  have l: "length (procs s1) = length (procs s)" by (simp add: s1_def)
  have o: "\<And>i. i < length (procs s) \<Longrightarrow> i \<noteq> p \<Longrightarrow> procs s1 ! i = procs s ! i"
    by (simp add: s1_def)
  have u: "carry_ok (upd_proc p (\<lambda>q. q\<lparr>currentLineBuffer := c\<rparr>) s0)"
    if "procs s0 = procs s1" and "newline \<notin> set c" for c s0
    by (rule carry_ok_set [OF assms]) (simp_all add: that l o)
  show ?thesis
  proof (cases "MAX_RESPONSE_SIZE < totalResponseSize (procs s1 ! p)")
    case True
    have "carry_ok (upd_proc p (\<lambda>q. q\<lparr>currentLineBuffer := [], totalResponseSize := 0\<rparr>)
               (breach_each (totalResponseSize (procs s1 ! p)) (pending s1) s1))"
      by (rule carry_ok_set [OF assms]) (simp_all add: l o)
    then show ?thesis
      using False True by (simp add: stdout_data_def Let_def s1_def [symmetric])
  next
    case nb: False
    let ?c = "last (split_nl (currentLineBuffer (procs s1 ! p)))"
    have "carry_ok (upd_proc p (\<lambda>q. q\<lparr>currentLineBuffer := ?c\<rparr>) s1)"
      by (rule u) (simp_all add: last_split_nl_no_newline)
    then show ?thesis
      using False nb
      by (simp add: stdout_data_def Let_def s1_def [symmetric] framer_split_def carry_ok_fold_lines)
  qed
qed

lemma carry_ok_exit: "carry_ok s \<Longrightarrow> carry_ok (proc_exit p code sg s)"
proof -
  assume a: "carry_ok s"
  have "carry_ok (upd_proc p (\<lambda>q. q\<lparr>alive := False\<rparr>) s)"
    by (rule carry_ok_upd [OF a]) simp
  then show ?thesis
    by (auto simp: proc_exit_def Let_def carry_ok_def split: option.splits)
qed

lemma carry_ok_forward: "carry_ok s \<Longrightarrow> carry_ok (forward r s)"
proof -
  assume a: "carry_ok s"
  have "\<And>p. carry_ok (upd_proc p (\<lambda>q. q\<lparr>stdin := stdin q @ [rpc_text r @ [newline]]\<rparr>) s)"
    by (rule carry_ok_upd [OF a]) simp
  then show ?thesis
    using a by (auto simp: forward_def Let_def register_def carry_ok_def split: option.splits)
qed

lemma carry_ok_connect: "carry_ok s \<Longrightarrow> carry_ok (connect c d ok s)"
  by (auto simp: connect_def carry_ok_def new_proc_def split: option.splits prod.splits)

lemma carry_ok_close: "carry_ok s \<Longrightarrow> carry_ok (ws_close s)"
proof -
  assume a: "carry_ok s"
  define s1 where "s1 = (clear_each (pending s) (s\<lparr>ws_open := False\<rparr>))\<lparr>pending := []\<rparr>"
  have b: "carry_ok s1" by (rule carry_ok_eq [OF a]) (simp add: s1_def)
  have "\<And>p. carry_ok (kill p SIGTERM s1)" by (rule carry_ok_kill [OF b])
  then have "\<And>p. carry_ok ((kill p SIGTERM s1)\<lparr>kill_timers := kill_timers s1 @ [p], reg := None\<rparr>)"
    by (simp add: carry_ok_def)
  moreover have "carry_ok (s1\<lparr>reg := None\<rparr>)" "carry_ok (s\<lparr>ws_open := False\<rparr>)"
    using a b by (simp_all add: carry_ok_def)
  ultimately show ?thesis
    by (simp add: ws_close_def Let_def s1_def [symmetric] split: option.splits)
qed

lemma carry_ok_kill_timeout: "carry_ok s \<Longrightarrow> carry_ok (kill_timeout p s)"
proof -
  assume a: "carry_ok s"
  have b: "carry_ok (s\<lparr>kill_timers := remove1 p (kill_timers s)\<rparr>)"
    using a by (simp add: carry_ok_def)
  show ?thesis using b carry_ok_kill [OF b] by (simp add: kill_timeout_def Let_def)
qed

lemma carry_ok_shutdown: "carry_ok s \<Longrightarrow> carry_ok (shutdown s)"
proof -
  assume a: "carry_ok s"
  define s2 where "s2 = (clear_each (pending s) (s\<lparr>shutting_down := True, ws_open := False\<rparr>))\<lparr>pending := []\<rparr>"
  have b: "carry_ok s2" by (rule carry_ok_eq [OF a]) (simp add: s2_def)
  have c: "carry_ok (s\<lparr>shutting_down := True\<rparr>)" using a by (simp add: carry_ok_def)
  show ?thesis
    using a b c carry_ok_kill [OF b]
    by (simp add: shutdown_def Let_def s2_def [symmetric] split: option.splits)
qed

lemma carry_ok_step:
  assumes "carry_ok s"
  shows "carry_ok (step P s e)"
proof (cases e)
  case (WsMessage m)
  then show ?thesis
    using assms carry_ok_forward [OF assms] carry_ok_connect [OF assms]
    by (cases m) (simp_all add: step_def ws_message_def)
next
  case (StdoutData p d)
  then show ?thesis using assms carry_ok_stdout [OF assms] by (simp add: step_def)
next
  case (StderrData p d)
  have "carry_ok (stderr_data p d s)"
    unfolding stderr_data_def by (rule carry_ok_upd [OF assms]) simp
  then show ?thesis using StderrData assms by (simp add: step_def)
next
  case (ProcExit p code sg)
  then show ?thesis using assms carry_ok_exit [OF assms] by (simp add: step_def)
next
  case (ProcError p m)
  then show ?thesis using assms by (simp add: step_def proc_error_def carry_ok_def)
next
  case (RequestTimeout h)
  then show ?thesis
    using assms
    by (auto simp: step_def request_timeout_def Let_def carry_ok_def split: option.splits)
next
  case (KillTimeout p)
  then show ?thesis using assms carry_ok_kill_timeout [OF assms] by (simp add: step_def)
next
  case WsClose
  then show ?thesis using carry_ok_close [OF assms] by (simp add: step_def)
next
  case Shutdown
  then show ?thesis using carry_ok_shutdown [OF assms] by (simp add: step_def)
qed

lemma carry_ok_run: "carry_ok s \<Longrightarrow> carry_ok (run P s evs)"
  by (induction evs arbitrary: s) (simp_all add: carry_ok_step)

lemma carry_ok_reachable:
  assumes "p < length (procs (run P init evs))"
  shows "newline \<notin> set (currentLineBuffer (procs (run P init evs) ! p))"
proof -
  have "carry_ok init" by (simp add: carry_ok_def init_def)
  then have "carry_ok (run P init evs)" by (rule carry_ok_run)
  then show ?thesis using assms by (simp add: carry_ok_def list_all_length)
qed

lemma stdout_chunks_general:
  assumes "p < length (procs s)" and "ws_open s" and "\<not> shutting_down s"
      and "newline \<notin> set (currentLineBuffer (procs s ! p))"
      and "totalResponseSize (procs s ! p) + length (concat chunks) \<le> MAX_RESPONSE_SIZE"
  shows "run P s (map (StdoutData p) chunks) =
           fold (process_line P p)
             (filter trim_truthy
                (butlast (split_nl (currentLineBuffer (procs s ! p) @ concat chunks))))
             (upd_proc p (take_text (concat chunks)) s)"
  using run_stdout_chunks [OF assms, of P]
  by (simp add: feed_text_def framer_feed_def framer_split_def)

section \<open>Facts about the example inputs\<close>





lemma response_line_no_newline:
  "newline \<notin> set (response_line 0)" "newline \<notin> set (response_line 1)"
  by (simp_all add: response_line_def newline_def show_nat.simps digit_char_def)

lemma step_connect: "step json_parse init (WsMessage demo_connect) = connected"
  by (simp add: eval_defs connected_def)

lemma connected_fields:
  "ws_open connected" "\<not> shutting_down connected" "cur connected = Some 0"
  "reg connected = Some (Some 0)" "pending connected = []" "timers connected = []"
  "next_timer connected = 0" "kill_timers connected = []" "sent connected = []"
  "procs connected = [new_proc ''python'' [''server.py''] True]"
  by (simp_all add: connected_def)


section \<open>The claims\<close>

subsection \<open>C1: at-most-one resolution\<close>




subsection \<open>C2: the cumulative size breach fails every pending request once\<close>

text \<open>
  C2. In a state reached from the initial one, with the connection open and no
  shutdown under way, a stdout chunk that takes the cumulative counter of its process
  over \<open>MAX_RESPONSE_SIZE\<close> makes the bridge send exactly one error response with
  code -32603 per pending id, in map order; the ids are pairwise different; the
  pending map is empty afterwards, no timeout of a pending entry stays scheduled, and
  the carry-over buffer and the counter of the process are reset.
\<close>

theorem size_breach_lossless:
  assumes "s = run json_parse init evs"
      and "p < length (procs s)" and "ws_open s" and "\<not> shutting_down s"
      and "MAX_RESPONSE_SIZE < totalResponseSize (procs s ! p) + length dataStr"
  shows "sent (step json_parse s (StdoutData p dataStr)) =
           sent s @ map (\<lambda>i. RpcError i (- 32603)
                          (breach_msg (totalResponseSize (procs s ! p) + length dataStr)))
                        (map fst (pending s))
       \<and> distinct (map fst (pending s))
       \<and> pending (step json_parse s (StdoutData p dataStr)) = []
       \<and> list_all (\<lambda>x. ri_timeout (snd x) \<notin> t_handle ` set (timers (step json_parse s (StdoutData p dataStr))))
                   (pending s)
       \<and> currentLineBuffer (procs (step json_parse s (StdoutData p dataStr)) ! p) = []
       \<and> totalResponseSize (procs (step json_parse s (StdoutData p dataStr)) ! p) = 0"
proof -
  have d: "distinct (map fst (pending s))"
    using keys_ok_run [OF keys_ok_init, of json_parse evs] assms(1) by (simp add: keys_ok_def)
  have st: "step json_parse s (StdoutData p dataStr) = stdout_data json_parse p dataStr s"
    using assms(2) by (simp add: step_def)
  have tm: "list_all (\<lambda>x. ri_timeout (snd x) \<notin> t_handle ` set (timers (stdout_data json_parse p dataStr s)))
                   (pending s)"
    using assms(2-5)
    by (force simp: stdout_data_def Let_def breach_each_timers list_all_iff)
  have rest: "sent (stdout_data json_parse p dataStr s) =
           sent s @ map (\<lambda>i. RpcError i (- 32603)
                          (breach_msg (totalResponseSize (procs s ! p) + length dataStr)))
                        (map fst (pending s))
       \<and> pending (stdout_data json_parse p dataStr s) = []
       \<and> currentLineBuffer (procs (stdout_data json_parse p dataStr s) ! p) = []
       \<and> totalResponseSize (procs (stdout_data json_parse p dataStr s) ! p) = 0"
    using assms(2-5)
    by (simp add: stdout_data_def Let_def breach_each_pending breach_each_sent)
  show ?thesis
    unfolding st using d tm rest by simp
qed

theorem size_breach_lossless_witness:
  "ws_open (run demo_parse init [WsMessage demo_connect, WsMessage (demo_request 1), WsMessage (demo_request 2)])
   \<and> map fst (pending (run demo_parse init
         [WsMessage demo_connect, WsMessage (demo_request 1), WsMessage (demo_request 2)])) = [IdNum 1, IdNum 2]
   \<and> sent (step demo_parse
         (run demo_parse init [WsMessage demo_connect, WsMessage (demo_request 1), WsMessage (demo_request 2)])
         (StdoutData 0 (replicate 50001 (CHR ''x'')))) =
       [RpcError (IdNum 1) (- 32603) ''Response too large (49KB). Server should implement size limiting.'',
        RpcError (IdNum 2) (- 32603) ''Response too large (49KB). Server should implement size limiting.'']
   \<and> pending (step demo_parse
         (run demo_parse init [WsMessage demo_connect, WsMessage (demo_request 1), WsMessage (demo_request 2)])
         (StdoutData 0 (replicate 50001 (CHR ''x'')))) = []
   \<and> timers (step demo_parse
         (run demo_parse init [WsMessage demo_connect, WsMessage (demo_request 1), WsMessage (demo_request 2)])
         (StdoutData 0 (replicate 50001 (CHR ''x'')))) = []"
proof -
  let ?s = "run demo_parse init [WsMessage demo_connect, WsMessage (demo_request 1), WsMessage (demo_request 2)]"
  have s: "?s = \<lparr>ws_open = True, shutting_down = False, cur = Some 0, reg = Some (Some 0),
      pending = [(IdNum 1, \<lparr>ri_method = ''tools/list'', ri_timeout = 0\<rparr>),
                 (IdNum 2, \<lparr>ri_method = ''tools/list'', ri_timeout = 1\<rparr>)],
      timers = [\<lparr>t_handle = 0, t_id = IdNum 1, t_delay = 10000\<rparr>,
                \<lparr>t_handle = 1, t_id = IdNum 2, t_delay = 10000\<rparr>],
      next_timer = 2, kill_timers = [],
      procs = [(new_proc ''python'' [''server.py''] True)
                 \<lparr>stdin := [''{\"jsonrpc\":\"2.0\",\"id\":1,\"method\":\"tools/list\"}'' @ [newline],
                             ''{\"jsonrpc\":\"2.0\",\"id\":2,\"method\":\"tools/list\"}'' @ [newline]]\<rparr>],
      sent = []\<rparr>"
    by (simp add: eval_defs)
  have h: "0 < length (procs ?s)" "ws_open ?s" "\<not> shutting_down ?s"
      "MAX_RESPONSE_SIZE < totalResponseSize (procs ?s ! 0) + length (replicate 50001 (CHR ''x''))"
    unfolding s by (simp_all add: new_proc_def MAX_RESPONSE_SIZE_def)
  have m: "breach_msg 50001 = ''Response too large (49KB). Server should implement size limiting.''"
    by (simp add: breach_msg_def round_kb_def show_nat.simps digit_char_def)
  have t: "timers (step demo_parse ?s (StdoutData 0 (replicate 50001 (CHR ''x'')))) = []"
    unfolding s
    by (simp add: step_def stdout_data_def Let_def new_proc_def MAX_RESPONSE_SIZE_def
                  upd_proc_def clearTimeout_def pending_delete_def ws_send_def)
  show ?thesis
    using size_breach_lossless [OF refl h] t m
    unfolding s by (simp add: new_proc_def)
qed

subsection \<open>C3: the forceful kill after the grace period\<close>

text \<open>
  C3 fails on the code. The client connects, the child runs, the connection closes:
  the child gets SIGTERM and the 2 s callback is scheduled. The child ignores SIGTERM
  and is alive when the callback runs; the callback tests \<open>!connection.mcpProcess.killed\<close>,
  which the delivered SIGTERM has made false, and sends nothing. The child keeps
  running with SIGTERM as the only signal it ever got.
\<close>

theorem close_sends_no_force_kill:
  "signals (procs (run demo_parse init [WsMessage demo_connect, WsClose]) ! 0) = [SIGTERM]
   \<and> kill_timers (run demo_parse init [WsMessage demo_connect, WsClose]) = [0]
   \<and> alive (procs (run demo_parse init [WsMessage demo_connect, WsClose, KillTimeout 0]) ! 0)
   \<and> signals (procs (run demo_parse init [WsMessage demo_connect, WsClose, KillTimeout 0]) ! 0) = [SIGTERM]
   \<and> kill_timers (run demo_parse init [WsMessage demo_connect, WsClose, KillTimeout 0]) = []"
  by (simp add: eval_defs)

text \<open>The close handler of the first revision (5 s callback) behaves the same way.\<close>

theorem basic_close_sends_no_force_kill:
  "signals (procs (basic_ws_close basic_running) ! 0) = [SIGTERM]
   \<and> kill_timers (basic_ws_close basic_running) = [0]
   \<and> alive (procs (basic_kill_timeout 0 (basic_ws_close basic_running)) ! 0)
   \<and> signals (procs (basic_kill_timeout 0 (basic_ws_close basic_running)) ! 0) = [SIGTERM]"
  by (simp add: eval2 eval_defs)

text \<open>
  This is no accident of the example. The callback is scheduled only after the close
  handler has called \<open>kill\<close> on the process, and from then on the process either has
  \<open>killed\<close> set or is gone; so in every run the callback leaves the process table as
  it is, and no SIGKILL is ever delivered by it.
\<close>

theorem force_kill_never_delivers:
  "procs (step json_parse (run json_parse init evs) (KillTimeout p)) = procs (run json_parse init evs)"
proof -
  let ?s = "run json_parse init evs"
  have k: "kill_inv ?s" by (rule run_kill_inv [OF kill_inv_init])
  show ?thesis
  proof (cases "p \<in> set (kill_timers ?s)")
    case False
    then show ?thesis by (simp add: step_def)
  next
    case True
    then have "killed (procs ?s ! p) \<or> \<not> alive (procs ?s ! p)"
      using k by (auto simp: kill_inv_def list_all_iff)
    then show ?thesis
      using True by (auto simp: step_def kill_timeout_def Let_def kill_def)
  qed
qed

subsection \<open>C4: the Framer does not depend on the chunking\<close>

text \<open>
  C4, as amended. In every state the bridge reaches from its start, with the
  connection open and no shutdown under way, two sequences of stdout chunks of a
  process that cut the same text take the stdout handler to the same state, as long
  as the text does not take the cumulative counter of the process over
  \<open>MAX_RESPONSE_SIZE\<close>. The handler then processes, in order, the non-blank lines
  among the elements but the last of the carry-over buffer followed by the whole
  text, split on newline; the last element is the new carry-over buffer.
\<close>

theorem stdout_chunking_invariant:
  assumes "s = run json_parse init evs"
      and "p < length (procs s)" and "ws_open s" and "\<not> shutting_down s"
      and "totalResponseSize (procs s ! p) + length (concat chunks1) \<le> MAX_RESPONSE_SIZE"
      and "concat chunks1 = concat chunks2"
  shows "run json_parse s (map (StdoutData p) chunks1) =
         run json_parse s (map (StdoutData p) chunks2)
       \<and> run json_parse s (map (StdoutData p) chunks1) =
           fold (process_line json_parse p)
             (filter trim_truthy
                (butlast (split_nl (currentLineBuffer (procs s ! p) @ concat chunks1))))
             (upd_proc p (take_text (concat chunks1)) s)
       \<and> currentLineBuffer (procs (run json_parse s (map (StdoutData p) chunks1)) ! p) =
           last (split_nl (currentLineBuffer (procs s ! p) @ concat chunks1))"
proof -
  have n: "newline \<notin> set (currentLineBuffer (procs s ! p))"
    using carry_ok_reachable [of p json_parse evs] assms(1,2) by simp
  have t: "totalResponseSize (procs s ! p) + length (concat chunks2) \<le> MAX_RESPONSE_SIZE"
    using assms(5,6) by simp
  have a: "run json_parse s (map (StdoutData p) chunks1) =
           run json_parse s (map (StdoutData p) chunks2)"
    using stdout_chunks_general [OF assms(2-4) n assms(5), of json_parse]
          stdout_chunks_general [OF assms(2-4) n t, of json_parse] assms(6)
    by simp
  have b: "run json_parse s (map (StdoutData p) chunks1) =
           fold (process_line json_parse p)
             (filter trim_truthy
                (butlast (split_nl (currentLineBuffer (procs s ! p) @ concat chunks1))))
             (upd_proc p (take_text (concat chunks1)) s)"
    by (rule stdout_chunks_general [OF assms(2-4) n assms(5)])
  have c: "currentLineBuffer (procs (run json_parse s (map (StdoutData p) chunks1)) ! p) =
           last (split_nl (currentLineBuffer (procs s ! p) @ concat chunks1))"
    using run_stdout_chunks [OF assms(2-4) n assms(5), of json_parse] feed_text_keeps(4) [OF assms(2)]
    by (simp add: framer_feed_def framer_split_def)
  show ?thesis using a b c by simp
qed

theorem stdout_chunking_invariant_witness:
  "concat [response_line 1 @ [newline] @ response_line 0 @ [newline]] =
   concat [response_line 1, [newline] @ response_line 0, [newline]]
   \<and> run demo_parse connected
       (map (StdoutData 0) [response_line 1 @ [newline] @ response_line 0 @ [newline]]) =
     run demo_parse connected
       (map (StdoutData 0) [response_line 1, [newline] @ response_line 0, [newline]])
   \<and> sent (run demo_parse connected
             (map (StdoutData 0) [response_line 1, [newline] @ response_line 0, [newline]])) =
       [Forwarded (response_line 1), Forwarded (response_line 0)]
   \<and> currentLineBuffer (procs (run demo_parse connected
             (map (StdoutData 0) [response_line 1, [newline] @ response_line 0, [newline]])) ! 0) = []"
proof -
  have c: "concat [response_line 1 @ [newline] @ response_line 0 @ [newline]] =
           concat [response_line 1, [newline] @ response_line 0, [newline]]"
    by simp
  have r: "connected = run demo_parse init [WsMessage demo_connect]"
    by (simp add: step_connect)
  have h: "0 < length (procs connected)" "ws_open connected" "\<not> shutting_down connected"
      "totalResponseSize (procs connected ! 0) +
         length (concat [response_line 1 @ [newline] @ response_line 0 @ [newline]]) \<le> MAX_RESPONSE_SIZE"
    by (simp_all add: connected_fields new_proc_def response_line_def show_nat.simps
                      digit_char_def MAX_RESPONSE_SIZE_def)
  have e: "sent (run demo_parse connected
           (map (StdoutData 0) [response_line 1 @ [newline] @ response_line 0 @ [newline]])) =
     [Forwarded (response_line 1), Forwarded (response_line 0)]"
     "currentLineBuffer (procs (run demo_parse connected
           (map (StdoutData 0) [response_line 1 @ [newline] @ response_line 0 @ [newline]])) ! 0) = []"
    by (simp_all add: connected_def eval_defs)
  show ?thesis
    using stdout_chunking_invariant [OF r h c] e by simp
qed

text \<open>
  C4 as stated fails on the stdout handler, because the cumulative size check sits
  between the append to the carry-over buffer and the split. The same text (a
  response line, a newline and 50000 more characters) comes in one chunk: the counter
  passes the limit before any line is split off, the buffer is emptied and no line is
  processed. It comes in two chunks: the response line is processed and forwarded,
  and only the second chunk is lost to the breach.
\<close>

theorem chunking_changes_forwarded_lines:
  "concat [response_line 1 @ [newline] @ replicate 50000 (CHR ''x'')] =
   concat [response_line 1 @ [newline], replicate 50000 (CHR ''x'')]
   \<and> sent (run demo_parse init
        (WsMessage demo_connect #
         map (StdoutData 0) [response_line 1 @ [newline] @ replicate 50000 (CHR ''x'')])) = []
   \<and> sent (run demo_parse init
        (WsMessage demo_connect #
         map (StdoutData 0) [response_line 1 @ [newline], replicate 50000 (CHR ''x'')])) =
       [Forwarded (response_line 1)]"
  by (simp add: eval_defs)

subsection \<open>C5: the timeout error response\<close>

text \<open>
  C5 fails on the code in its last part. The request with id 7 is registered with a
  timer of \<open>REQUEST_TIMEOUT\<close> = 10000 ms. When the timer fires the entry is removed
  and the client gets an error response with id 7, code -32603 and a message that
  contains "timeout"; but the message names 15 seconds, not the 10 seconds that
  expired.
\<close>

theorem timeout_names_wrong_duration:
  "timers (run demo_parse init [WsMessage demo_connect, WsMessage (demo_request 7)]) =
     [\<lparr>t_handle = 0, t_id = IdNum 7, t_delay = 10000\<rparr>]
   \<and> sent (run demo_parse init [WsMessage demo_connect, WsMessage (demo_request 7), RequestTimeout 0]) =
     [RpcError (IdNum 7) (- 32603)
        ''Request timeout after 15 seconds. Server should implement faster response handling.'']
   \<and> pending (run demo_parse init [WsMessage demo_connect, WsMessage (demo_request 7), RequestTimeout 0]) = []
   \<and> contains ''timeout'' timeout_msg \<and> contains ''15 seconds'' timeout_msg
   \<and> \<not> contains ''10'' timeout_msg"
  by (simp add: eval_defs timeout_msg_def)

subsection \<open>C6: a stdout line over the per-frame threshold\<close>




subsection \<open>C7: a client request over the request size limit\<close>

text \<open>
  C7, as amended. A client message whose serialisation with its newline is longer
  than \<open>MAX_RESPONSE_SIZE div 4\<close> is never written to a child's stdin, creates no
  pending entry and starts no timer. The client gets an error response with code
  -32603 carrying the id exactly when the id is truthy, the connection is open and no
  shutdown is under way (with the text "Request too large" when a child is
  available, "MCP process not available" otherwise); else it gets nothing.
\<close>

theorem oversize_request_amended:
  assumes "MAX_RESPONSE_SIZE div 4 < length (rpc_text r @ [newline])"
  shows "procs (step json_parse s (WsMessage (Rpc r))) = procs s
       \<and> pending (step json_parse s (WsMessage (Rpc r))) = pending s
       \<and> timers (step json_parse s (WsMessage (Rpc r))) = timers s
       \<and> next_timer (step json_parse s (WsMessage (Rpc r))) = next_timer s
       \<and> sent (step json_parse s (WsMessage (Rpc r))) =
           sent s @
           (if truthy (rpc_id r) \<and> ws_open s \<and> \<not> shutting_down s
            then [RpcError (rpc_id r) (- 32603)
                    (if available s = None then unavailable_msg
                     else request_too_large_msg (rpc_text r @ [newline]))]
            else [])"
  using assms
  by (auto simp: step_def ws_message_def forward_def Let_def split: option.splits)

theorem oversize_request_amended_witness:
  "MAX_RESPONSE_SIZE div 4 < length (rpc_text (big_request 7) @ [newline])
   \<and> sent (step demo_parse (run demo_parse init [WsMessage demo_connect]) (WsMessage (Rpc (big_request 7)))) =
       [RpcError (IdNum 7) (- 32603) ''Request too large (12KB). Please reduce request size.'']
   \<and> stdin (procs (step demo_parse (run demo_parse init [WsMessage demo_connect])
                      (WsMessage (Rpc (big_request 7)))) ! 0) = []
   \<and> pending (step demo_parse (run demo_parse init [WsMessage demo_connect])
                      (WsMessage (Rpc (big_request 7)))) = []
   \<and> timers (step demo_parse (run demo_parse init [WsMessage demo_connect])
                      (WsMessage (Rpc (big_request 7)))) = []"
proof -
  have b: "MAX_RESPONSE_SIZE div 4 < length (rpc_text (big_request 7) @ [newline])"
    by (simp add: big_request_def MAX_RESPONSE_SIZE_def)
  have m: "request_too_large_msg (rpc_text (big_request 7) @ [newline]) =
             ''Request too large (12KB). Please reduce request size.''"
    by (simp add: request_too_large_msg_def big_request_def round_kb_def show_nat.simps digit_char_def)
  show ?thesis
    using oversize_request_amended [OF b, where json_parse = demo_parse and s = connected] b m
    by (simp add: step_connect connected_fields new_proc_def available_def big_request_def)
qed

text \<open>
  C7 as stated fails for a request whose id is 0: the oversized \<open>tools/call\<close> with
  id 0 on an open connection with a running child is dropped without any response.
\<close>

theorem oversize_request_id_zero_no_response:
  "MAX_RESPONSE_SIZE div 4 < length (rpc_text (big_request 0))
   \<and> rpc_id (big_request 0) = IdNum 0 \<and> rpc_method (big_request 0) = Some ''tools/call''
   \<and> ws_open (run demo_parse init [WsMessage demo_connect])
   \<and> sent (run demo_parse init [WsMessage demo_connect, WsMessage (Rpc (big_request 0))]) = []"
  by (simp add: eval_defs big_request_def)

subsection \<open>C8: output on stderr\<close>

text \<open>
  C8, as amended. In the size-limited bridge a chunk on stderr is not forwarded: its
  trimmed text and a newline are appended to the process's stderr buffer, and the
  connection, the process, the pending requests and the timers stay as they are; the
  buffer reaches the client later, inside the \<open>process_exit\<close> event of an exit with a
  code other than 0, or with any code before the process was initialised. In the
  first revision the chunk is forwarded at once as an error-shaped message with code
  -32000 when the connection is open, and nothing else changes. In neither does
  stderr end the session.
\<close>

theorem stderr_buffered_or_forwarded:
  assumes "p < length (procs s)"
  shows "sent (step json_parse s (StderrData p d)) = sent s
       \<and> stderrBuffer (procs (step json_parse s (StderrData p d)) ! p) =
           stderrBuffer (procs s ! p) @ js_trim d @ [newline]
       \<and> alive (procs (step json_parse s (StderrData p d)) ! p) = alive (procs s ! p)
       \<and> ws_open (step json_parse s (StderrData p d)) = ws_open s
       \<and> cur (step json_parse s (StderrData p d)) = cur s
       \<and> reg (step json_parse s (StderrData p d)) = reg s
       \<and> pending (step json_parse s (StderrData p d)) = pending s
       \<and> timers (step json_parse s (StderrData p d)) = timers s
       \<and> ((code \<noteq> Some 0 \<or> \<not> isInitialized (procs s ! p)) \<and> ws_open s \<and> alive (procs s ! p) \<longrightarrow>
            last (sent (step json_parse s (ProcExit p code sg))) =
              ProcessExitEvent code sg (stdoutBuffer (procs s ! p)) (stderrBuffer (procs s ! p))
                (process_exit_text code))
       \<and> sent (basic_stderr_data d s) =
           sent s @ (if ws_open s
                     then [RpcError IdAbsent (- 32000) (''MCP Server Error: '' @ js_trim d)] else [])
       \<and> procs (basic_stderr_data d s) = procs s
       \<and> ws_open (basic_stderr_data d s) = ws_open s
       \<and> cur (basic_stderr_data d s) = cur s"
  using assms
  by (simp add: step_def stderr_data_def basic_stderr_data_def proc_exit_def Let_def
           split: option.splits)

theorem stderr_buffered_or_forwarded_witness:
  "sent (run demo_parse init [WsMessage demo_connect, StderrData 0 ''boom'']) = []
   \<and> stderrBuffer (procs (run demo_parse init [WsMessage demo_connect, StderrData 0 ''boom'']) ! 0) =
       ''boom'' @ [newline]
   \<and> sent (run demo_parse init [WsMessage demo_connect, StderrData 0 ''boom'', ProcExit 0 (Some 1) None]) =
       [ProcessExitEvent (Some 1) None [] (''boom'' @ [newline]) ''Process exited with error code 1'']
   \<and> sent (basic_stderr_data ''boom'' basic_running) =
       [RpcError IdAbsent (- 32000) ''MCP Server Error: boom'']"
proof -
  have l: "(0::nat) < length (procs connected)"
    by (simp add: connected_fields)
  have e: "sent (run demo_parse init [WsMessage demo_connect, StderrData 0 ''boom'', ProcExit 0 (Some 1) None]) =
       [ProcessExitEvent (Some 1) None [] (''boom'' @ [newline]) ''Process exited with error code 1'']"
    by (simp add: eval_defs process_exit_text_def show_code_def)
  have b: "sent (basic_stderr_data ''boom'' basic_running) =
       [RpcError IdAbsent (- 32000) ''MCP Server Error: boom'']"
    by (simp add: eval2 init_def ws_send_def js_trim_def is_space_def)
  show ?thesis
    using stderr_buffered_or_forwarded [OF l, where json_parse = demo_parse and d = "''boom''"] e b
    by (simp add: step_connect connected_fields new_proc_def js_trim_def is_space_def)
qed

text \<open>
  C8 as stated fails on the size-limited bridge: the child runs, the connection is
  open, the child writes to stderr, and nothing is sent to the client.
\<close>

theorem stderr_not_forwarded:
  "ws_open (run demo_parse init [WsMessage demo_connect])
   \<and> alive (procs (run demo_parse init [WsMessage demo_connect]) ! 0)
   \<and> sent (run demo_parse init [WsMessage demo_connect, StderrData 0 ''Traceback: boom'']) = []
   \<and> alive (procs (run demo_parse init [WsMessage demo_connect, StderrData 0 ''Traceback: boom'']) ! 0)"
  by (simp add: eval_defs)

subsection \<open>C9: the child processes of a session\<close>

text \<open>
  C9, as amended. In every state reached from the initial one, the number of child
  processes of the session that run is at most the number of connect messages the
  client has sent. So a session whose client connects once has at most one running
  child, and no other message or event adds one.
\<close>

theorem live_children_bounded_by_connects:
  "live (run json_parse init evs) \<le> length (filter is_connect evs)"
  using run_live [of json_parse init evs] by (simp add: live_def init_def)

theorem live_children_bounded_by_connects_witness:
  "length (filter is_connect demo_trace) = 1 \<and> live (run demo_parse init demo_trace) \<le> 1"
  using live_children_bounded_by_connects [of demo_parse demo_trace]
  by (simp add: demo_trace_def is_connect_def demo_connect_def demo_request_def)

text \<open>
  C9 as stated fails on a second connect message: the connect branch spawns a new
  process and assigns it to \<open>mcpProcess\<close> without ending the one that runs, so two
  children of the session are alive.
\<close>

theorem second_connect_two_children:
  "live (run demo_parse init [WsMessage demo_connect, WsMessage demo_connect]) = 2
   \<and> cur (run demo_parse init [WsMessage demo_connect, WsMessage demo_connect]) = Some 1
   \<and> alive (procs (run demo_parse init [WsMessage demo_connect, WsMessage demo_connect]) ! 0)
   \<and> alive (procs (run demo_parse init [WsMessage demo_connect, WsMessage demo_connect]) ! 1)"
  by (simp add: eval_defs live_def)

subsection \<open>C10: messages with a falsy id\<close>




end
